theory Spec2Isabelle
  imports Main "HOL-Library.AList"
begin

section \<open>Values of the host language\<close>

text \<open>
  A property read in JavaScript yields a string or \<open>undefined\<close>; \<open>None\<close> is \<open>undefined\<close>.
  Strict equality \<open>===\<close> on such values is equality of \<open>jstr\<close>.
\<close>

type_synonym jstr = "string option"

text \<open>
  Numbers: \<open>NaN\<close>, an integer, or the result of \<open>parseFloat\<close> on a text, which is kept
  unevaluated (floating point is not modelled; no function below inspects it).
\<close>

datatype jsnum = NaN | Num int | FloatOf jstr

definition isWhiteSpace :: "char \<Rightarrow> bool" where
  "isWhiteSpace c = (c \<in> set [CHR 0x09, CHR 0x0A, CHR 0x0B, CHR 0x0C, CHR 0x0D, CHR 0x20])"

definition digitValue :: "char \<Rightarrow> nat option" where
  "digitValue c =
     (let n = (of_char c :: nat) in
      if 48 \<le> n \<and> n \<le> 57 then Some (n - 48)
      else if 97 \<le> n \<and> n \<le> 122 then Some (n - 87)
      else if 65 \<le> n \<and> n \<le> 90 then Some (n - 55)
      else None)"

definition isDigit :: "nat \<Rightarrow> char \<Rightarrow> bool" where
  "isDigit R c = (case digitValue c of None \<Rightarrow> False | Some d \<Rightarrow> d < R)"

definition digitsValue :: "nat \<Rightarrow> string \<Rightarrow> nat" where
  "digitsValue R z = foldl (\<lambda>a c. a * R + (case digitValue c of None \<Rightarrow> 0 | Some d \<Rightarrow> d)) 0 z"

text \<open>
  \<open>parseInt(v)\<close> with no radix, after ECMAScript: the argument is converted to a string
  (\<open>undefined\<close> becomes the text "undefined"), leading white space is skipped, a sign is
  read, a prefix \<open>0x\<close> selects radix 16, and the longest run of digits is the value; no
  digit gives \<open>NaN\<close>. The value is kept as an exact integer (the rounding of integers
  above \<open>2^53\<close> to a double and the sign of zero are not modelled), on ASCII text.
\<close>

definition parseInt :: "jstr \<Rightarrow> jsnum" where
  "parseInt v =
     (let s0 = dropWhile isWhiteSpace (case v of None \<Rightarrow> ''undefined'' | Some s \<Rightarrow> s);
          neg = (take 1 s0 = ''-'');
          s1 = (if take 1 s0 = ''+'' \<or> take 1 s0 = ''-'' then drop 1 s0 else s0);
          hex = (take 2 s1 = ''0x'' \<or> take 2 s1 = ''0X'');
          R = (if hex then 16 else 10);
          s2 = (if hex then drop 2 s1 else s1);
          z = takeWhile (isDigit R) s2
      in if z = [] then NaN
         else Num ((if neg then - 1 else 1) * int (digitsValue R z)))"

definition parseFloat :: "jstr \<Rightarrow> jsnum" where
  "parseFloat v = FloatOf v"

section \<open>Data model\<close>

text \<open>A raw event of the transport: an object, as the list of its properties.\<close>

type_synonym rawevent = "(string \<times> string) list"

definition fld :: "rawevent \<Rightarrow> string \<Rightarrow> jstr" where
  "fld ev k = map_of ev k"

record member =
  name :: jstr
  extension :: jstr
  stateInterface :: jstr
  membership :: jstr
  penalty :: jsnum
  callsTaken :: jsnum
  lastCall :: jsnum
  lastPause :: jsnum
  loginTime :: jsnum
  inCall :: jsnum
  status :: jsnum
  paused :: jsnum
  pausedReason :: jstr
  wrapupTime :: jsnum

text \<open>The fields \<open>name\<close> and \<open>max\<close> of a queue are \<open>qname\<close> and \<open>qmax\<close> here.\<close>

record queue =
  qname :: jstr
  qmax :: jsnum
  strategy :: jstr
  calls :: jsnum
  holdtime :: jsnum
  talktime :: jsnum
  completed :: jsnum
  abandoned :: jsnum
  servicelevel :: jsnum
  servicelevelperf :: jsnum
  servicelevelperf2 :: jsnum
  weight :: jsnum
  members :: "member list"

text \<open>
  A \<open>Map\<close> keeps its keys in insertion order: an association list, where \<open>set\<close> is
  \<open>AList.update\<close> (in place for a known key, at the end for a new one), \<open>get\<close> is
  \<open>map_of\<close>, \<open>delete\<close> is \<open>AList.delete\<close> and \<open>values()\<close> is \<open>map snd\<close>.
\<close>

type_synonym qmap = "(jstr \<times> queue) list"

text \<open>
  The table \<open>pendingEvents\<close> holds two kinds of values in one key space: under an
  extension, the newest event with its list of queues; under the extension followed by
  \<open>_timeout\<close>, the handle of the timer.
\<close>

record pending =
  payload :: rawevent
  pqueues :: "jstr list"

datatype pval = PEvent pending | PTimer nat

datatype callback = Debounce jstr string | ConnectTimeout | Reconnect

type_synonym timer = "nat \<times> nat \<times> callback"

datatype notification =
    Connected
  | Disconnected
  | Reconnecting nat
  | ConnectionError string jstr
  | QueuesUpdated "queue list"
  | MemberAdded jstr member
  | MemberRemoved jstr member
  | MemberStatusChanged "jstr list" member jsnum
  | MemberPauseChanged "jstr list" member jsnum

text \<open>
  The instance of \<open>AsteriskCache\<close>, with what it holds of its environment: the listeners
  it has on the transport and on the transport's socket (\<open>None\<close>: there is no socket),
  the calls of \<open>open\<close> and \<open>close\<close> it made, the timers of the event loop with the clock
  (in milliseconds), the notifications it emitted, in order, and whether \<open>process.exit\<close>
  was reached. \<open>openThrows n\<close> is the message of the error the \<open>n\<close>-th call of
  \<open>nami.open()\<close> raises, if it raises.
\<close>

record cache =
  queues :: qmap
  isConnected :: bool
  reconnectInterval :: nat
  connectTimeout :: nat
  connectionTimeout :: "nat option"
  reconnectTimeout :: "nat option"
  isReconnecting :: bool
  shouldReconnect :: bool
  pendingEvents :: "(jstr \<times> pval) list"
  eventTimeout :: nat
  namiListeners :: "string list"
  socketListeners :: "string list option"
  opened :: nat
  closed :: nat
  openThrows :: "nat \<Rightarrow> jstr option"
  timers :: "timer list"
  nextTimer :: nat
  clock :: nat
  emitted :: "notification list"
  exited :: bool

section \<open>Timers\<close>

text \<open>
  \<open>setTimeout\<close> takes a delay outside \<open>1 .. 2^31 - 1\<close> as 1. \<open>clearTimeout\<close> of a handle
  that already fired or was cleared does nothing.
\<close>

definition timer_delay :: "nat \<Rightarrow> nat" where
  "timer_delay d = (if 1 \<le> d \<and> d \<le> 2147483647 then d else 1)"

definition clearTimeout :: "nat \<Rightarrow> timer list \<Rightarrow> timer list" where
  "clearTimeout h ts = filter (\<lambda>t. fst t \<noteq> h) ts"

definition setTimeout :: "callback \<Rightarrow> nat \<Rightarrow> cache \<Rightarrow> nat \<times> cache" where
  "setTimeout cb d s =
     (nextTimer s,
      s\<lparr>timers := timers s @ [(nextTimer s, clock s + timer_delay d, cb)],
        nextTimer := Suc (nextTimer s)\<rparr>)"

definition emit :: "notification \<Rightarrow> cache \<Rightarrow> cache" where
  "emit n s = s\<lparr>emitted := emitted s @ [n]\<rparr>"

section \<open>The coalescing engine\<close>

fun findIndex :: "('a \<Rightarrow> bool) \<Rightarrow> 'a list \<Rightarrow> nat option" where
  "findIndex P [] = None"
| "findIndex P (x # xs) = (if P x then Some 0 else map_option Suc (findIndex P xs))"

text \<open>The object literal built from a member event (status and member-added events).\<close>

definition memberOfEvent :: "rawevent \<Rightarrow> member" where
  "memberOfEvent event =
     \<lparr>name = fld event ''membername'',
      extension = fld event ''interface'',
      stateInterface = fld event ''stateinterface'',
      membership = fld event ''membership'',
      penalty = parseInt (fld event ''penalty''),
      callsTaken = parseInt (fld event ''callstaken''),
      lastCall = parseInt (fld event ''lastcall''),
      lastPause = parseInt (fld event ''lastpause''),
      loginTime = parseInt (fld event ''logintime''),
      inCall = parseInt (fld event ''incall''),
      status = parseInt (fld event ''status''),
      paused = parseInt (fld event ''paused''),
      pausedReason = fld event ''pausedreason'',
      wrapupTime = parseInt (fld event ''wrapuptime'')\<rparr>"

definition newMember :: "string \<Rightarrow> rawevent \<Rightarrow> member \<Rightarrow> member option" where
  "newMember eventType event oldMember =
     (if eventType = ''QueueMemberStatus'' then Some (memberOfEvent event)
      else if eventType = ''QueueMemberPause'' then
        Some (oldMember\<lparr>paused := parseInt (fld event ''paused''),
                        pausedReason := fld event ''pausedreason'',
                        lastPause := parseInt (fld event ''lastpause'')\<rparr>)
      else None)"

text \<open>The body of the loop over the affected queues, for one queue name.\<close>

definition applyToQueue :: "string \<Rightarrow> rawevent \<Rightarrow> jstr \<Rightarrow> qmap \<Rightarrow> qmap" where
  "applyToQueue eventType event queueName qs =
     (case map_of qs queueName of
        None \<Rightarrow> qs
      | Some q \<Rightarrow>
          (case findIndex (\<lambda>m. extension m = fld event ''interface'') (members q) of
             None \<Rightarrow> qs
           | Some memberIndex \<Rightarrow>
               (case newMember eventType event (members q ! memberIndex) of
                  None \<Rightarrow> qs
                | Some m \<Rightarrow>
                    AList.update queueName (q\<lparr>members := (members q)[memberIndex := m]\<rparr>) qs)))"

definition applyToQueues :: "string \<Rightarrow> rawevent \<Rightarrow> jstr list \<Rightarrow> qmap \<Rightarrow> qmap" where
  "applyToQueues eventType event qnames qs = fold (applyToQueue eventType event) qnames qs"

text \<open>
  What \<open>processPendingEvent\<close> reads from the value stored under the extension. A stored
  event has its list \<open>queues\<close>. A timer handle stored there (the key of an extension can
  be the timer key of another) is an object without the properties of an event: every
  field is \<open>undefined\<close> and \<open>event.queues || [event.queue]\<close> is \<open>[undefined]\<close>.
\<close>

definition eventOf :: "pval \<Rightarrow> rawevent \<times> jstr list" where
  "eventOf v = (case v of PEvent p \<Rightarrow> (payload p, pqueues p) | PTimer h \<Rightarrow> ([], [None]))"

definition timeoutKey :: "jstr \<Rightarrow> jstr" where
  "timeoutKey ext =
     Some ((case ext of None \<Rightarrow> ''undefined'' | Some e \<Rightarrow> e) @ ''_timeout'')"

definition firstOf :: "jstr list \<Rightarrow> jstr" where
  "firstOf qnames = (case qnames of [] \<Rightarrow> None | q # _ \<Rightarrow> q)"

definition mergedNotification :: "string \<Rightarrow> rawevent \<Rightarrow> jstr list \<Rightarrow> qmap \<Rightarrow> notification list" where
  "mergedNotification eventType event qnames qs =
     (if eventType = ''QueueMemberStatus'' then
        (case map_of qs (firstOf qnames) of
           None \<Rightarrow> []
         | Some firstQueue \<Rightarrow>
             (case find (\<lambda>m. extension m = fld event ''interface'') (members firstQueue) of
                None \<Rightarrow> []
              | Some m \<Rightarrow> [MemberStatusChanged qnames m (paused m)]))
      else if eventType = ''QueueMemberPause'' then
        (case map_of qs (firstOf qnames) of
           None \<Rightarrow> []
         | Some firstQueue \<Rightarrow>
             (case find (\<lambda>m. extension m = fld event ''interface'') (members firstQueue) of
                None \<Rightarrow> []
              | Some m \<Rightarrow> [MemberPauseChanged qnames m (paused m)]))
      else [])"

definition processPendingEvent :: "jstr \<Rightarrow> string \<Rightarrow> cache \<Rightarrow> cache" where
  "processPendingEvent ext eventType s =
     (case map_of (pendingEvents s) ext of
        None \<Rightarrow> s
      | Some v \<Rightarrow>
          (let (event, qnames) = eventOf v;
               pe = AList.delete (timeoutKey ext) (AList.delete ext (pendingEvents s));
               qs = applyToQueues eventType event qnames (queues s)
           in s\<lparr>pendingEvents := pe,
                queues := qs,
                emitted := emitted s @ mergedNotification eventType event qnames qs
                             @ [QueuesUpdated (map snd qs)]\<rparr>))"

text \<open>
  The list of queues of the entry that \<open>scheduleEventProcessing\<close> stores. When the value
  found under the extension is a timer handle, \<open>existingEvent.queues\<close> is first set to
  \<open>[existingEvent.queue]\<close>, which is \<open>[undefined]\<close>.
\<close>

definition mergedQueues :: "pval option \<Rightarrow> jstr \<Rightarrow> jstr list" where
  "mergedQueues existingEvent q =
     (case existingEvent of
        None \<Rightarrow> [q]
      | Some v \<Rightarrow>
          (let qnames = (case v of PEvent p \<Rightarrow> pqueues p | PTimer h \<Rightarrow> [None])
           in if q \<in> set qnames then qnames else qnames @ [q]))"

definition scheduleEventProcessing :: "jstr \<Rightarrow> string \<Rightarrow> rawevent \<Rightarrow> cache \<Rightarrow> cache" where
  "scheduleEventProcessing ext eventType event s =
     (let qnames = mergedQueues (map_of (pendingEvents s) ext) (fld event ''queue'');
          pe1 = AList.update ext (PEvent \<lparr>payload = event, pqueues = qnames\<rparr>) (pendingEvents s);
          ts1 = (case map_of pe1 (timeoutKey ext) of
                   Some (PTimer h) \<Rightarrow> clearTimeout h (timers s)
                 | _ \<Rightarrow> timers s);
          (h, s1) = setTimeout (Debounce ext eventType) (eventTimeout s)
                      (s\<lparr>pendingEvents := pe1, timers := ts1\<rparr>)
      in s1\<lparr>pendingEvents := AList.update (timeoutKey ext) (PTimer h) (pendingEvents s1)\<rparr>)"

section \<open>Connection lifecycle\<close>

definition lifecycleEvents :: "string list" where
  "lifecycleEvents =
     [''namiConnected'', ''namiConnectionClose'', ''namiInvalidPeer'', ''namiEvent'',
      ''namiConnectionError'']"

definition removeAllListeners :: "string \<Rightarrow> string list \<Rightarrow> string list" where
  "removeAllListeners n ls = filter (\<lambda>l. l \<noteq> n) ls"

definition clearHandle :: "nat option \<Rightarrow> timer list \<Rightarrow> timer list" where
  "clearHandle h ts = (case h of None \<Rightarrow> ts | Some t \<Rightarrow> clearTimeout t ts)"

definition handleDisconnection :: "cache \<Rightarrow> cache" where
  "handleDisconnection s =
     (let s1 = s\<lparr>timers := clearHandle (reconnectTimeout s) (clearHandle (connectionTimeout s) (timers s)),
                 connectionTimeout := None,
                 reconnectTimeout := None,
                 isConnected := False\<rparr>;
          s2 = emit Disconnected s1
      in if shouldReconnect s2 then
           (let (h, s3) = setTimeout Reconnect (reconnectInterval s2)
                            (emit (Reconnecting (reconnectInterval s2)) s2)
            in s3\<lparr>reconnectTimeout := Some h\<rparr>)
         else s2)"

definition socketErrorHandler :: "jstr \<Rightarrow> cache \<Rightarrow> cache" where
  "socketErrorHandler msg s = handleDisconnection (emit (ConnectionError ''SOCKET_ERROR'' msg) s)"

text \<open>
  \<open>connect\<close> has no suspension point: it runs to its end in one turn of the event loop.
  Only \<open>nami.open()\<close> can raise inside its \<open>try\<close>; the \<open>catch\<close> runs before the \<open>finally\<close>.
\<close>

definition connect :: "cache \<Rightarrow> cache" where
  "connect s =
     (if isReconnecting s \<or> \<not> shouldReconnect s then s
      else
        (let s1 = s\<lparr>isReconnecting := True,
                    namiListeners := fold removeAllListeners lifecycleEvents (namiListeners s),
                    socketListeners := map_option (removeAllListeners ''error'') (socketListeners s)\<rparr>;
             (h, s2) = setTimeout ConnectTimeout (connectTimeout s1) s1;
             s3 = s2\<lparr>connectionTimeout := Some h,
                     namiListeners := namiListeners s2 @ lifecycleEvents,
                     socketListeners := map_option (\<lambda>ls. ls @ [''error'']) (socketListeners s2)\<rparr>;
             s4 = s3\<lparr>opened := Suc (opened s3)\<rparr>;
             s5 = (case openThrows s3 (opened s3) of
                     None \<Rightarrow> s4
                   | Some msg \<Rightarrow> handleDisconnection (emit (ConnectionError ''CONNECTION_ERROR'' msg) s4))
         in s5\<lparr>isReconnecting := False\<rparr>))"

definition handleConnection :: "cache \<Rightarrow> cache" where
  "handleConnection s =
     (let s1 = s\<lparr>timers := clearHandle (connectionTimeout s) (timers s),
                 connectionTimeout := None,
                 isConnected := True,
                 isReconnecting := False\<rparr>;
          s2 = emit Connected s1
      in s2\<lparr>socketListeners :=
               map_option (\<lambda>ls. removeAllListeners ''error'' ls @ [''error'']) (socketListeners s2)\<rparr>)"

definition endsWith :: "string \<Rightarrow> string \<Rightarrow> bool" where
  "endsWith k suf = (length suf \<le> length k \<and> drop (length k - length suf) k = suf)"

text \<open>
  The loop of \<open>cleanup\<close> over the entries of the pending table. \<open>key.endsWith\<close> raises a
  TypeError on the key \<open>undefined\<close> (an event without \<open>interface\<close> is stored under it):
  the result is \<open>False\<close> with the timers cleared so far. \<open>clearTimeout\<close> of a stored event
  does nothing.
\<close>

fun clearPendingTimers :: "(jstr \<times> pval) list \<Rightarrow> timer list \<Rightarrow> bool \<times> timer list" where
  "clearPendingTimers [] ts = (True, ts)"
| "clearPendingTimers ((key, v) # rest) ts =
     (case key of
        None \<Rightarrow> (False, ts)
      | Some k \<Rightarrow>
          if endsWith k ''_timeout'' then
            (case v of
               PTimer h \<Rightarrow> clearPendingTimers rest (clearTimeout h ts)
             | PEvent p \<Rightarrow> clearPendingTimers rest ts)
          else clearPendingTimers rest ts)"

text \<open>
  \<open>cleanup\<close>; \<open>closeThrows\<close> is the message of the error \<open>nami.close()\<close> raises, if it
  raises. The \<open>await\<close> on \<open>nami.close()\<close> is taken in the same turn of the event loop. When
  the loop over the pending table raises, \<open>cleanup\<close> stops there: the table, the listeners
  and the process are left as they are.
\<close>

definition cleanup :: "jstr option \<Rightarrow> cache \<Rightarrow> cache" where
  "cleanup closeThrows s =
     (let s1 = s\<lparr>shouldReconnect := False,
                 timers := clearHandle (reconnectTimeout s) (clearHandle (connectionTimeout s) (timers s)),
                 connectionTimeout := None,
                 reconnectTimeout := None\<rparr>;
          (ok, ts) = clearPendingTimers (pendingEvents s1) (timers s1)
      in if \<not> ok then s1\<lparr>timers := ts\<rparr>
         else
           (let s2 = s1\<lparr>timers := ts,
                       pendingEvents := [],
                       namiListeners := [],
                       socketListeners := map_option (\<lambda>ls. []) (socketListeners s1)\<rparr>;
                s3 = (if isConnected s2 then
                        (let s' = s2\<lparr>closed := Suc (closed s2)\<rparr>
                         in case closeThrows of
                              None \<Rightarrow> s'
                            | Some msg \<Rightarrow> emit (ConnectionError ''CLEANUP_ERROR'' msg) s')
                      else s2)
            in (emit Disconnected s3)\<lparr>exited := True\<rparr>))"

definition disconnect :: "jstr option \<Rightarrow> cache \<Rightarrow> cache" where
  "disconnect closeThrows s = cleanup closeThrows s"

section \<open>The command gateway\<close>

datatype action =
    QueueStatus
  | QueuePause jstr jstr jstr
  | QueueUnpause jstr
  | QueueAdd jstr jstr jsnum jstr jsnum
  | QueueRemove jstr jstr

text \<open>The response object of the transport, with the properties the code reads.\<close>

record reply =
  response :: jstr
  message :: jstr
  events :: "rawevent list option"

text \<open>
  The four rejections of \<open>_send\<close>, in the order of the source: not connected, timeout
  (for the action), invalid response (for the action), error of the switch (with the
  text \<open>response.message || 'Erro desconhecido'\<close>).
\<close>

datatype cmd_error = NotConnected | Timeout action | InvalidResponse action | RemoteError string

text \<open>
  What the transport does with a dispatched action: it never calls back, or it calls back
  once, so many milliseconds after the dispatch, with a response (\<open>None\<close>: a response that
  is \<open>null\<close> or \<open>undefined\<close>).
\<close>

datatype outcome = NoReply | Reply nat "reply option"

definition remoteMessage :: "reply \<Rightarrow> string" where
  "remoteMessage r =
     (case message r of
        None \<Rightarrow> ''Erro desconhecido''
      | Some m \<Rightarrow> if m = [] then ''Erro desconhecido'' else m)"

text \<open>
  The response callback of \<open>_send\<close>, after it cleared the timer.
\<close>

definition onResponse :: "action \<Rightarrow> reply option \<Rightarrow> cmd_error + reply" where
  "onResponse a r =
     (case r of
        None \<Rightarrow> Inl (InvalidResponse a)
      | Some resp \<Rightarrow>
          if response resp = Some ''Error'' then Inl (RemoteError (remoteMessage resp))
          else Inr resp)"

text \<open>
  \<open>_send(action, timeout = 5000)\<close>: the value the promise settles with. The timer and the
  response race: the timer fires at its delay after the dispatch, and a promise settles
  once, so a response that comes at or after that moment changes nothing; a response that
  comes before clears the timer.
\<close>

definition send :: "cache \<Rightarrow> action \<Rightarrow> nat option \<Rightarrow> outcome \<Rightarrow> cmd_error + reply" where
  "send s a timeout oc =
     (if \<not> isConnected s then Inl NotConnected
      else
        (let t = timer_delay (case timeout of None \<Rightarrow> 5000 | Some t \<Rightarrow> t)
         in case oc of
              NoReply \<Rightarrow> Inl (Timeout a)
            | Reply d r \<Rightarrow> if t \<le> d then Inl (Timeout a) else onResponse a r))"

text \<open>
  The mutating operations. \<open>Inl\<close> is an error raised to the caller, \<open>Inr\<close> the returned
  value: \<open>await\<close> on a rejected promise raises inside the \<open>try\<close>, and the \<open>catch\<close> returns
  \<open>false\<close>.
\<close>

definition awaitSuccess :: "cmd_error + reply \<Rightarrow> cmd_error + bool" where
  "awaitSuccess p = (case p of Inl e \<Rightarrow> Inl e | Inr r \<Rightarrow> Inr (response r = Some ''Success''))"

definition catchFalse :: "cmd_error + bool \<Rightarrow> cmd_error + bool" where
  "catchFalse b = (case b of Inl e \<Rightarrow> Inr False | Inr v \<Rightarrow> Inr v)"

definition pauseMember :: "cache \<Rightarrow> jstr \<Rightarrow> jstr \<Rightarrow> outcome \<Rightarrow> cmd_error + bool" where
  "pauseMember s memberInterface reason oc =
     (let reason' = (case reason of None \<Rightarrow> Some [] | Some r \<Rightarrow> Some r)
      in catchFalse (awaitSuccess (send s (QueuePause memberInterface None reason') None oc)))"

definition unpauseMember :: "cache \<Rightarrow> jstr \<Rightarrow> outcome \<Rightarrow> cmd_error + bool" where
  "unpauseMember s memberInterface oc =
     catchFalse (awaitSuccess (send s (QueueUnpause memberInterface) None oc))"

definition addMemberToQueue ::
  "cache \<Rightarrow> jstr \<Rightarrow> jstr \<Rightarrow> jstr \<Rightarrow> jsnum option \<Rightarrow> jsnum option \<Rightarrow> outcome \<Rightarrow> cmd_error + bool" where
  "addMemberToQueue s memberInterface memberName queueName pausedArg penaltyArg oc =
     (let p = (case pausedArg of None \<Rightarrow> Num 0 | Some v \<Rightarrow> v);
          y = (case penaltyArg of None \<Rightarrow> Num 0 | Some v \<Rightarrow> v)
      in catchFalse (awaitSuccess
           (send s (QueueAdd memberInterface queueName p memberName y) None oc)))"

definition removeMemberFromQueue :: "cache \<Rightarrow> jstr \<Rightarrow> jstr \<Rightarrow> outcome \<Rightarrow> cmd_error + bool" where
  "removeMemberFromQueue s memberInterface queueName oc =
     catchFalse (awaitSuccess (send s (QueueRemove memberInterface queueName) None oc))"

section \<open>The queue cache\<close>

definition defaultQueue :: "jstr \<Rightarrow> queue" where
  "defaultQueue queueName =
     \<lparr>qname = queueName, qmax = Num 0, strategy = Some ''ringall'', calls = Num 0,
      holdtime = Num 0, talktime = Num 0, completed = Num 0, abandoned = Num 0,
      servicelevel = Num 0, servicelevelperf = Num 0, servicelevelperf2 = Num 0,
      weight = Num 0, members = []\<rparr>"

definition handleQueueMemberAdded :: "rawevent \<Rightarrow> cache \<Rightarrow> cache" where
  "handleQueueMemberAdded event s =
     (let queueName = fld event ''queue'';
          (q, qs1) = (case map_of (queues s) queueName of
                        None \<Rightarrow> (defaultQueue queueName,
                                  AList.update queueName (defaultQueue queueName) (queues s))
                      | Some q \<Rightarrow> (q, queues s));
          m = memberOfEvent event
      in case findIndex (\<lambda>x. extension x = extension m) (members q) of
           Some memberIndex \<Rightarrow> s\<lparr>queues := qs1\<rparr>
         | None \<Rightarrow>
             (let qs2 = AList.update queueName (q\<lparr>members := members q @ [m]\<rparr>) qs1
              in emit (QueuesUpdated (map snd qs2))
                   (emit (MemberAdded queueName m) (s\<lparr>queues := qs2\<rparr>))))"

text \<open>\<open>splice(i, 1)\<close> on the member list.\<close>

definition splice1 :: "nat \<Rightarrow> 'a list \<Rightarrow> 'a list" where
  "splice1 i xs = take i xs @ drop (Suc i) xs"

definition handleQueueMemberRemoved :: "rawevent \<Rightarrow> cache \<Rightarrow> cache" where
  "handleQueueMemberRemoved event s =
     (let queueName = fld event ''queue''
      in case map_of (queues s) queueName of
           None \<Rightarrow> s
         | Some q \<Rightarrow>
             (case findIndex (\<lambda>m. extension m = fld event ''interface'') (members q) of
                None \<Rightarrow> s
              | Some memberIndex \<Rightarrow>
                  (let removedMember = members q ! memberIndex;
                       qs = AList.update queueName
                              (q\<lparr>members := splice1 memberIndex (members q)\<rparr>) (queues s)
                   in emit (QueuesUpdated (map snd qs))
                        (emit (MemberRemoved queueName removedMember) (s\<lparr>queues := qs\<rparr>)))))"

definition queueOfParams :: "rawevent \<Rightarrow> queue" where
  "queueOfParams event =
     \<lparr>qname = fld event ''queue'',
      qmax = parseInt (fld event ''max''),
      strategy = fld event ''strategy'',
      calls = parseInt (fld event ''calls''),
      holdtime = parseInt (fld event ''holdtime''),
      talktime = parseInt (fld event ''talktime''),
      completed = parseInt (fld event ''completed''),
      abandoned = parseInt (fld event ''abandoned''),
      servicelevel = parseInt (fld event ''servicelevel''),
      servicelevelperf = parseFloat (fld event ''servicelevelperf''),
      servicelevelperf2 = parseFloat (fld event ''servicelevelperf2''),
      weight = parseInt (fld event ''weight''),
      members = []\<rparr>"

definition memberOfQueueMember :: "rawevent \<Rightarrow> member" where
  "memberOfQueueMember event =
     \<lparr>name = fld event ''name'',
      extension = fld event ''location'',
      stateInterface = fld event ''stateinterface'',
      membership = fld event ''membership'',
      penalty = parseInt (fld event ''penalty''),
      callsTaken = parseInt (fld event ''callstaken''),
      lastCall = parseInt (fld event ''lastcall''),
      lastPause = parseInt (fld event ''lastpause''),
      loginTime = parseInt (fld event ''logintime''),
      inCall = parseInt (fld event ''incall''),
      status = parseInt (fld event ''status''),
      paused = parseInt (fld event ''paused''),
      pausedReason = fld event ''pausedreason'',
      wrapupTime = parseInt (fld event ''wrapuptime'')\<rparr>"

text \<open>
  \<open>currentQueue.members.push(m)\<close>. \<open>currentQueue\<close> is the object stored in the map under
  its name (a later \<open>QueueParams\<close> of the same name replaces the object and becomes the
  current queue), so the push is an update of that entry.
\<close>

definition pushMember :: "jstr \<Rightarrow> member \<Rightarrow> qmap \<Rightarrow> qmap" where
  "pushMember cur m qs =
     (case map_of qs cur of
        None \<Rightarrow> qs
      | Some q \<Rightarrow> AList.update cur (q\<lparr>members := members q @ [m]\<rparr>) qs)"

text \<open>
  The loop of \<open>updateQueues\<close> over \<open>response.events\<close>; \<open>cur\<close> is the name of the current
  queue, \<open>None\<close> while \<open>currentQueue\<close> is \<open>null\<close>.
\<close>

fun buildQueues :: "rawevent list \<Rightarrow> qmap \<Rightarrow> jstr option \<Rightarrow> qmap" where
  "buildQueues [] qs cur = qs"
| "buildQueues (event # rest) qs cur =
     (if fld event ''event'' = Some ''QueueParams'' then
        buildQueues rest (AList.update (fld event ''queue'') (queueOfParams event) qs)
          (Some (fld event ''queue''))
      else if fld event ''event'' = Some ''QueueMember'' then
        (case cur of
           None \<Rightarrow> buildQueues rest qs cur
         | Some c \<Rightarrow> buildQueues rest (pushMember c (memberOfQueueMember event) qs) cur)
      else buildQueues rest qs cur)"

text \<open>
  \<open>updateQueues\<close>, for the outcome of its one call of \<open>_send\<close>. A rejection is caught and
  logged.
\<close>

definition updateQueues :: "outcome \<Rightarrow> cache \<Rightarrow> cache" where
  "updateQueues oc s =
     (case send s QueueStatus None oc of
        Inl e \<Rightarrow> s
      | Inr resp \<Rightarrow>
          (case events resp of
             None \<Rightarrow> s
           | Some evs \<Rightarrow>
               (let qs = buildQueues evs [] None
                in emit (QueuesUpdated (map snd qs)) (s\<lparr>queues := qs\<rparr>))))"

text \<open>
  \<open>handleEvent\<close>. The outcome is the answer of the transport to the status query that a
  \<open>FullyBooted\<close> event starts; the resynchronisation is applied in the same step (its
  round trip is not interleaved with later events).
\<close>

definition handleEvent :: "rawevent \<Rightarrow> outcome \<Rightarrow> cache \<Rightarrow> cache" where
  "handleEvent event oc s =
     (if fld event ''event'' = Some ''FullyBooted'' then updateQueues oc s
      else if fld event ''event'' = Some ''QueueMemberStatus'' then
        scheduleEventProcessing (fld event ''interface'') ''QueueMemberStatus'' event s
      else if fld event ''event'' = Some ''QueueMemberAdded'' then handleQueueMemberAdded event s
      else if fld event ''event'' = Some ''QueueMemberRemoved'' then handleQueueMemberRemoved event s
      else if fld event ''event'' = Some ''QueueMemberPause'' then
        scheduleEventProcessing (fld event ''interface'') ''QueueMemberPause'' event s
      else s)"

section \<open>The event loop\<close>

definition fire :: "callback \<Rightarrow> cache \<Rightarrow> cache" where
  "fire cb s =
     (case cb of
        Debounce ext eventType \<Rightarrow> processPendingEvent ext eventType s
      | ConnectTimeout \<Rightarrow>
          handleDisconnection
            (emit (ConnectionError ''TIMEOUT'' (Some ''Timeout ao conectar ao Asterisk AMI'')) s)
      | Reconnect \<Rightarrow> connect s)"

text \<open>A timer that is still scheduled when its turn comes leaves the table and runs.\<close>

definition fireTimer :: "nat \<Rightarrow> cache \<Rightarrow> cache" where
  "fireTimer h s =
     (case find (\<lambda>t. fst t = h) (timers s) of
        None \<Rightarrow> s
      | Some (h', d, cb) \<Rightarrow> fire cb (s\<lparr>timers := clearTimeout h (timers s)\<rparr>))"

definition dueTimers :: "cache \<Rightarrow> nat list" where
  "dueTimers s =
     map fst (sort_key (\<lambda>t. fst (snd t)) (filter (\<lambda>t. fst (snd t) \<le> clock s) (timers s)))"

text \<open>
  One millisecond passes: the timers that are due run, by deadline and then by creation.
  A timer set in a callback is due a millisecond later at the earliest.
\<close>

definition tick :: "cache \<Rightarrow> cache" where
  "tick s = (let s1 = s\<lparr>clock := Suc (clock s)\<rparr> in fold fireTimer (dueTimers s1) s1)"

primrec elapse :: "nat \<Rightarrow> cache \<Rightarrow> cache" where
  "elapse 0 s = s"
| "elapse (Suc d) s = elapse d (tick s)"

text \<open>
  What the environment does: time passes; the transport emits one of its events (each
  listener attached for it runs once); its socket emits an error; an uncaught exception
  with a code reaches the handler of the process; a termination signal arrives; the host
  calls \<open>connect\<close> or \<open>disconnect\<close>.
\<close>

datatype input =
    Elapse nat
  | NamiConnected
  | NamiConnectionClose
  | NamiInvalidPeer
  | NamiEvent rawevent outcome
  | NamiConnectionError jstr
  | SocketError jstr
  | UncaughtException jstr
  | Signal "jstr option"
  | CallConnect
  | CallDisconnect "jstr option"

definition dispatch :: "string \<Rightarrow> (cache \<Rightarrow> cache) \<Rightarrow> cache \<Rightarrow> cache" where
  "dispatch n handler s = (handler ^^ count_list (namiListeners s) n) s"

definition dispatchSocket :: "string \<Rightarrow> (cache \<Rightarrow> cache) \<Rightarrow> cache \<Rightarrow> cache" where
  "dispatchSocket n handler s =
     (case socketListeners s of
        None \<Rightarrow> s
      | Some ls \<Rightarrow> (handler ^^ count_list ls n) s)"

definition step :: "input \<Rightarrow> cache \<Rightarrow> cache" where
  "step i s =
     (if exited s then s
      else case i of
        Elapse d \<Rightarrow> elapse d s
      | NamiConnected \<Rightarrow> dispatch ''namiConnected'' handleConnection s
      | NamiConnectionClose \<Rightarrow> dispatch ''namiConnectionClose'' handleDisconnection s
      | NamiInvalidPeer \<Rightarrow>
          dispatch ''namiInvalidPeer''
            (\<lambda>s. handleDisconnection
                    (emit (ConnectionError ''INVALID_PEER''
                       (Some (''Credenciais inv'' @ [CHR 0xC3, CHR 0xA1] @ ''lidas do Asterisk AMI''))) s)) s
      | NamiEvent event oc \<Rightarrow> dispatch ''namiEvent'' (handleEvent event oc) s
      | NamiConnectionError msg \<Rightarrow>
          dispatch ''namiConnectionError''
            (\<lambda>s. handleDisconnection (emit (ConnectionError ''CONNECTION_ERROR'' msg) s)) s
      | SocketError msg \<Rightarrow> dispatchSocket ''error'' (socketErrorHandler msg) s
      | UncaughtException code \<Rightarrow>
          (if code = Some ''ECONNREFUSED'' then handleDisconnection s else s)
      | Signal closeThrows \<Rightarrow> cleanup closeThrows s
      | CallConnect \<Rightarrow> connect s
      | CallDisconnect closeThrows \<Rightarrow> disconnect closeThrows s)"

definition run :: "input list \<Rightarrow> cache \<Rightarrow> cache" where
  "run ins s = fold step ins s"

section \<open>The constructor and example values\<close>

definition newCache :: cache where
  "newCache =
     \<lparr>queues = [], isConnected = False, reconnectInterval = 5000, connectTimeout = 10000,
      connectionTimeout = None, reconnectTimeout = None, isReconnecting = False,
      shouldReconnect = True, pendingEvents = [], eventTimeout = 500,
      namiListeners = [], socketListeners = None, opened = 0, closed = 0,
      openThrows = (\<lambda>n. None), timers = [], nextTimer = 0, clock = 0, emitted = [],
      exited = False\<rparr>"

text \<open>A cache that is connected, with its listeners attached, holding the given queues.\<close>

definition connectedCache :: "qmap \<Rightarrow> cache" where
  "connectedCache qs =
     newCache\<lparr>queues := qs, isConnected := True, namiListeners := lifecycleEvents\<rparr>"

definition agent :: "string \<Rightarrow> member" where
  "agent e =
     \<lparr>name = Some ''Agent'', extension = Some e, stateInterface = Some e,
      membership = Some ''dynamic'', penalty = Num 0, callsTaken = Num 3, lastCall = Num 0,
      lastPause = Num 0, loginTime = Num 0, inCall = Num 0, status = Num 1, paused = Num 0,
      pausedReason = Some [], wrapupTime = Num 0\<rparr>"

definition queueWith :: "string \<Rightarrow> member list \<Rightarrow> jstr \<times> queue" where
  "queueWith n ms = (Some n, (defaultQueue (Some n))\<lparr>members := ms\<rparr>)"

definition pauseEvent :: "string \<Rightarrow> string \<Rightarrow> string \<Rightarrow> string \<Rightarrow> rawevent" where
  "pauseEvent q e p reason =
     [(''event'', ''QueueMemberPause''), (''queue'', q), (''interface'', e), (''paused'', p),
      (''pausedreason'', reason), (''lastpause'', ''17'')]"

definition statusEvent :: "string \<Rightarrow> string \<Rightarrow> string \<Rightarrow> rawevent" where
  "statusEvent q e st =
     [(''event'', ''QueueMemberStatus''), (''queue'', q), (''interface'', e),
      (''membername'', ''Agent''), (''stateinterface'', e), (''membership'', ''dynamic''),
      (''penalty'', ''0''), (''callstaken'', ''4''), (''lastcall'', ''1700000100''),
      (''lastpause'', ''0''), (''logintime'', ''1699990000''), (''incall'', ''0''),
      (''status'', st), (''paused'', ''0''), (''pausedreason'', []), (''wrapuptime'', ''0'')]"

definition addedEvent :: "string \<Rightarrow> string \<Rightarrow> rawevent" where
  "addedEvent q e =
     [(''event'', ''QueueMemberAdded''), (''queue'', q), (''interface'', e),
      (''membername'', ''Agent''), (''stateinterface'', e), (''membership'', ''dynamic''),
      (''penalty'', ''0''), (''callstaken'', ''0''), (''lastcall'', ''0''),
      (''lastpause'', ''0''), (''logintime'', ''1699990000''), (''incall'', ''0''),
      (''status'', ''1''), (''paused'', ''0''), (''pausedreason'', []), (''wrapuptime'', ''0'')]"

section \<open>Auxiliary notions for the proofs\<close>

text \<open>What the loop body of \<open>processPendingEvent\<close> makes of one queue record.\<close>

definition updatedQueue :: "string \<Rightarrow> rawevent \<Rightarrow> queue \<Rightarrow> queue" where
  "updatedQueue eventType event q =
     (case findIndex (\<lambda>m. extension m = fld event ''interface'') (members q) of
        None \<Rightarrow> q
      | Some i \<Rightarrow>
          (case newMember eventType event (members q ! i) of
             None \<Rightarrow> q
           | Some m \<Rightarrow> q\<lparr>members := (members q)[i := m]\<rparr>))"

definition c10State :: cache where
  "c10State =
     (connectedCache [queueWith ''B'' [agent ''SIP/100'']])
       \<lparr>pendingEvents :=
          [(Some ''SIP/100'',
            PEvent \<lparr>payload = pauseEvent ''B'' ''SIP/100'' ''1'' ''Lunch'',
                    pqueues = [Some ''A'', Some ''B'']\<rparr>)]\<rparr>"

definition pausedAgent :: "string \<Rightarrow> member" where
  "pausedAgent e =
     (agent e)\<lparr>paused := Num 1, pausedReason := Some ''Lunch'', lastPause := Num 17\<rparr>"

definition paramsEvent :: "string \<Rightarrow> rawevent" where
  "paramsEvent q =
     [(''event'', ''QueueParams''), (''queue'', q), (''max'', ''0''), (''strategy'', ''ringall''),
      (''calls'', ''0''), (''holdtime'', ''0''), (''talktime'', ''0''), (''completed'', ''0''),
      (''abandoned'', ''0''), (''servicelevel'', ''0''), (''servicelevelperf'', ''0.0''),
      (''servicelevelperf2'', ''0.0''), (''weight'', ''0'')]"

definition queueMemberEvent :: "string \<Rightarrow> string \<Rightarrow> rawevent" where
  "queueMemberEvent q loc =
     [(''event'', ''QueueMember''), (''queue'', q), (''name'', ''Agent''), (''location'', loc),
      (''stateinterface'', loc), (''membership'', ''dynamic''), (''penalty'', ''0''),
      (''callstaken'', ''0''), (''lastcall'', ''0''), (''lastpause'', ''0''),
      (''logintime'', ''0''), (''incall'', ''0''), (''status'', ''1''), (''paused'', ''0''),
      (''pausedreason'', []), (''wrapuptime'', ''0'')]"

definition success :: "rawevent list option \<Rightarrow> reply" where
  "success evs = \<lparr>response = Some ''Success'', message = None, events = evs\<rparr>"

text \<open>The answer to a status query of the scenario: two queues, of two and one members.\<close>

definition statusResponse :: reply where
  "statusResponse =
     success (Some [paramsEvent ''A'', queueMemberEvent ''A'' ''SIP/100'',
                    queueMemberEvent ''A'' ''SIP/101'', paramsEvent ''B'',
                    queueMemberEvent ''B'' ''SIP/100''])"

text \<open>An answer that lists the same member twice under one queue.\<close>

definition duplicateResponse :: reply where
  "duplicateResponse =
     success (Some [paramsEvent ''A'', queueMemberEvent ''A'' ''SIP/100'',
                    queueMemberEvent ''A'' ''SIP/100''])"

definition errorResponse :: reply where
  "errorResponse = \<lparr>response = Some ''Error'', message = Some ''Permission denied'', events = None\<rparr>"

text \<open>A status or pause event of the transport for the given extension.\<close>

definition isCoalesced :: "jstr \<Rightarrow> rawevent \<Rightarrow> bool" where
  "isCoalesced ext e =
     (fld e ''interface'' = ext \<and>
      fld e ''event'' \<in> set [Some ''QueueMemberStatus'', Some ''QueueMemberPause''])"

definition kindOf :: "rawevent \<Rightarrow> string" where
  "kindOf e = (case fld e ''event'' of None \<Rightarrow> [] | Some k \<Rightarrow> k)"

text \<open>
  A burst: a first event, then further events, each after a gap in milliseconds since
  the one before.
\<close>

definition burst :: "rawevent \<Rightarrow> (nat \<times> rawevent) list \<Rightarrow> input list" where
  "burst e1 rest =
     NamiEvent e1 NoReply # concat (map (\<lambda>(g, e). [Elapse g, NamiEvent e NoReply]) rest)"

text \<open>The distinct elements of a list, in the order of their first occurrence.\<close>

definition firstSeen :: "'a list \<Rightarrow> 'a list" where
  "firstSeen xs = rev (remdups (rev xs))"

definition isMerged :: "notification \<Rightarrow> bool" where
  "isMerged n =
     (case n of MemberStatusChanged qn m p \<Rightarrow> True | MemberPauseChanged qn m p \<Rightarrow> True | _ \<Rightarrow> False)"

text \<open>The cache while one extension is pending, with its timer \<open>h\<close> due at \<open>dl\<close>.\<close>

definition pendingState :: "cache \<Rightarrow> jstr \<Rightarrow> rawevent \<Rightarrow> jstr list \<Rightarrow> nat \<Rightarrow> nat \<Rightarrow> nat \<Rightarrow> cache" where
  "pendingState s ext ev qn h dl c =
     s\<lparr>pendingEvents := [(ext, PEvent \<lparr>payload = ev, pqueues = qn\<rparr>), (timeoutKey ext, PTimer h)],
       timers := [(h, dl, Debounce ext (kindOf ev))],
       nextTimer := Suc h,
       clock := c\<rparr>"

definition addQueue :: "'a list \<Rightarrow> 'a \<Rightarrow> 'a list" where
  "addQueue acc q = (if q \<in> set acc then acc else acc @ [q])"

text \<open>The cache after the timer of a pending extension fired.\<close>

definition firedState :: "cache \<Rightarrow> rawevent \<Rightarrow> jstr list \<Rightarrow> nat \<Rightarrow> nat \<Rightarrow> cache" where
  "firedState s ev qn h dl =
     s\<lparr>pendingEvents := [],
       timers := [],
       nextTimer := Suc h,
       clock := dl,
       queues := applyToQueues (kindOf ev) ev qn (queues s),
       emitted := emitted s
         @ mergedNotification (kindOf ev) ev qn (applyToQueues (kindOf ev) ev qn (queues s))
         @ [QueuesUpdated (map snd (applyToQueues (kindOf ev) ev qn (queues s)))]\<rparr>"

text \<open>
  A cache that is shut down: reconnection is off, nothing is pending and no listener is
  attached to the transport or to its socket.
\<close>

definition quiesced :: "cache \<Rightarrow> bool" where
  "quiesced s =
     (\<not> shouldReconnect s \<and> pendingEvents s = [] \<and> namiListeners s = [] \<and>
      socketListeners s \<in> set [None, Some []])"

text \<open>
  A cache that is shut down, with the given queue map and count of calls of \<open>open\<close>,
  whose timers are among the given ones.
\<close>

definition inert :: "qmap \<Rightarrow> nat \<Rightarrow> timer set \<Rightarrow> cache \<Rightarrow> bool" where
  "inert qs n T s = (quiesced s \<and> queues s = qs \<and> opened s = n \<and> set (timers s) \<subseteq> T)"

text \<open>A connected cache in which one pause event is pending.\<close>

definition shutdownExample :: cache where
  "shutdownExample =
     scheduleEventProcessing (Some ''SIP/100'') ''QueueMemberPause''
       (pauseEvent ''A'' ''SIP/100'' ''1'' ''Lunch'')
       (connectedCache [queueWith ''A'' [agent ''SIP/100'']])"

text \<open>No queue of the map has two members of the same extension.\<close>

definition uniqueMembers :: "qmap \<Rightarrow> bool" where
  "uniqueMembers qs = list_all (\<lambda>kq. distinct (map extension (members (snd kq)))) qs"

text \<open>A pause event that names its member under \<open>location\<close> and has no \<open>interface\<close>.\<close>

definition pauseWithoutInterface :: rawevent where
  "pauseWithoutInterface =
     [(''event'', ''QueueMemberPause''), (''queue'', ''A''), (''location'', ''SIP/100''),
      (''paused'', ''1''), (''pausedreason'', ''Lunch'')]"

text \<open>The event, a termination signal, a member-added event, and the debounce window.\<close>

definition shutdownTrace :: "input list" where
  "shutdownTrace =
     [NamiEvent pauseWithoutInterface NoReply, Signal None,
      NamiEvent (addedEvent ''A'' ''SIP/101'') NoReply, Elapse 500]"

text \<open>
  Two extensions collide when a key of one in the pending table (the extension itself or
  its timer key) is a key of the other.
\<close>

definition collides :: "jstr \<Rightarrow> jstr \<Rightarrow> bool" where
  "collides ext E =
     (E = ext \<or> E = timeoutKey ext \<or> timeoutKey E = ext \<or> timeoutKey E = timeoutKey ext)"

text \<open>
  A timer callback that belongs to something else than the given extension: a connection
  timer, or the debounce timer of an extension that does not collide with it, whose
  pending entry (if there is one) is not an event of the given extension.
\<close>

definition foreignCb :: "jstr \<Rightarrow> (jstr \<times> pval) list \<Rightarrow> callback \<Rightarrow> bool" where
  "foreignCb ext pe cb =
     (case cb of
        Debounce E ty \<Rightarrow>
          \<not> collides ext E \<and>
          (case map_of pe E of
             None \<Rightarrow> True
           | Some v \<Rightarrow> fld (fst (eventOf v)) ''interface'' \<noteq> ext)
      | ConnectTimeout \<Rightarrow> True
      | Reconnect \<Rightarrow> True)"

text \<open>A merged notification about a member of the given extension.\<close>

definition mergedFor :: "jstr \<Rightarrow> notification \<Rightarrow> bool" where
  "mergedFor ext n =
     (case n of
        MemberStatusChanged qn m p \<Rightarrow> extension m = ext
      | MemberPauseChanged qn m p \<Rightarrow> extension m = ext
      | _ \<Rightarrow> False)"

text \<open>The member of the given extension in the named queue, as \<open>find\<close> gives it.\<close>

definition lookupMember :: "jstr \<Rightarrow> jstr \<Rightarrow> qmap \<Rightarrow> member option" where
  "lookupMember ext q1 qs =
     (case map_of qs q1 of
        None \<Rightarrow> None
      | Some q \<Rightarrow> find (\<lambda>m. extension m = ext) (members q))"

text \<open>
  A running cache with its one listener for the events of the transport, whose timer
  handles are those that \<open>setTimeout\<close> gave out (distinct, below the next one, as are the
  handles kept in the two connection fields), and in which every timer but the one given
  as \<open>mine\<close> belongs to something else than the given extension.
\<close>

definition watch :: "jstr \<Rightarrow> timer option \<Rightarrow> cache \<Rightarrow> bool" where
  "watch ext mine s =
     (distinct (map fst (timers s)) \<and>
      (\<forall>t \<in> set (timers s). fst t < nextTimer s) \<and>
      (\<forall>h. connectionTimeout s = Some h \<or> reconnectTimeout s = Some h \<longrightarrow>
           h < nextTimer s \<and> Some h \<noteq> map_option fst mine) \<and>
      \<not> exited s \<and>
      count_list (namiListeners s) ''namiEvent'' = 1 \<and>
      (\<forall>t \<in> set (timers s). Some t \<noteq> mine \<longrightarrow> foreignCb ext (pendingEvents s) (snd (snd t))) \<and>
      (\<forall>t. mine = Some t \<longrightarrow> t \<in> set (timers s)))"

text \<open>
  Nothing of the given extension is pending, and nothing that is pending or scheduled
  collides with it.
\<close>

definition undisturbed :: "jstr \<Rightarrow> cache \<Rightarrow> bool" where
  "undisturbed ext s =
     (watch ext None s \<and> map_of (pendingEvents s) ext = None \<and>
      map_of (pendingEvents s) (timeoutKey ext) = None)"

text \<open>What the timers of other extensions and of the connection leave as it is.\<close>

definition obs ::
  "jstr \<Rightarrow> cache \<Rightarrow>
   notification list \<times> (jstr \<Rightarrow> member option) \<times> pval option \<times> pval option \<times> nat" where
  "obs ext s =
     (filter (mergedFor ext) (emitted s), (\<lambda>q. lookupMember ext q (queues s)),
      map_of (pendingEvents s) ext, map_of (pendingEvents s) (timeoutKey ext), eventTimeout s)"

text \<open>The given extension is pending with the event, the queue list and the timer.\<close>

definition stage ::
  "jstr \<Rightarrow> notification list \<Rightarrow> (jstr \<Rightarrow> member option) \<Rightarrow> nat \<Rightarrow> rawevent \<Rightarrow> jstr list \<Rightarrow>
   nat \<Rightarrow> nat \<Rightarrow> cache \<Rightarrow> bool" where
  "stage ext F M T ev qn h dl s =
     (watch ext (Some (h, dl, Debounce ext (kindOf ev))) s \<and>
      obs ext s = (F, M, Some (PEvent \<lparr>payload = ev, pqueues = qn\<rparr>), Some (PTimer h), T))"

text \<open>
  A connected cache in which a pause event for \<open>SIP/200\<close> is pending, its timer due
  500 ms later.
\<close>

definition busyCache :: cache where
  "busyCache =
     step (NamiEvent (pauseEvent ''A'' ''SIP/200'' ''1'' ''Break'') NoReply)
       (connectedCache [queueWith ''A'' [agent ''SIP/100'', agent ''SIP/200''],
                        queueWith ''B'' [agent ''SIP/100'']])"

text \<open>
  The timer handles are those that \<open>setTimeout\<close> gave out: the scheduled timers have
  distinct handles below the next one, as are the handles kept in the two connection
  fields.
\<close>

definition handlesOk :: "cache \<Rightarrow> bool" where
  "handlesOk s =
     (distinct (map fst (timers s)) \<and>
      (\<forall>t \<in> set (timers s). fst t < nextTimer s) \<and>
      (\<forall>h. connectionTimeout s = Some h \<or> reconnectTimeout s = Some h \<longrightarrow> h < nextTimer s))"

section \<open>Lists, indices and the queue map\<close>

lemma findIndex_Some_iff:
  "findIndex P xs = Some i \<longleftrightarrow> i < length xs \<and> P (xs ! i) \<and> (\<forall>j<i. \<not> P (xs ! j))"
proof (induction xs arbitrary: i)
  case Nil
  then show ?case by simp
next
  case (Cons x xs)
  show ?case
  proof (cases "P x")
    case True
    then show ?thesis by (cases i) auto
  next
    case False
    then show ?thesis
      using Cons.IH
      apply (cases i)
       apply (auto simp: nth_Cons split: nat.splits)
      done
  qed
qed

lemma findIndex_None_iff: "findIndex P xs = None \<longleftrightarrow> (\<forall>x \<in> set xs. \<not> P x)"
  by (induction xs) auto

lemma find_None_findIndex: "find P xs = None \<longleftrightarrow> findIndex P xs = None"
  by (induction xs) auto

lemma find_findIndex: "findIndex P xs = Some i \<Longrightarrow> find P xs = Some (xs ! i)"
  by (induction xs arbitrary: i) (auto split: if_splits)

lemma map_of_applyToQueue:
  "map_of (applyToQueue ty ev qn' qs) qn =
     (if qn' = qn then map_option (updatedQueue ty ev) (map_of qs qn) else map_of qs qn)"
  by (auto simp: applyToQueue_def updatedQueue_def update_conv' split: option.splits)

lemma newMember_extension:
  "newMember ty ev old = Some m \<Longrightarrow> extension old = fld ev ''interface'' \<Longrightarrow>
   extension m = fld ev ''interface''"
  by (auto simp: newMember_def memberOfEvent_def split: if_splits)

lemma newMember_idem: "newMember ty ev old = Some m \<Longrightarrow> newMember ty ev m = Some m"
  by (auto simp: newMember_def split: if_splits)

lemma updatedQueue_idem: "updatedQueue ty ev (updatedQueue ty ev q) = updatedQueue ty ev q"
proof (cases "findIndex (\<lambda>m. extension m = fld ev ''interface'') (members q)")
  case None
  then show ?thesis by (simp add: updatedQueue_def)
next
  case fi: (Some i)
  show ?thesis
  proof (cases "newMember ty ev (members q ! i)")
    case None
    with fi show ?thesis by (simp add: updatedQueue_def)
  next
    case nm: (Some m)
    from fi have i: "extension (members q ! i) = fld ev ''interface''"
      by (simp add: findIndex_Some_iff)
    have em: "extension m = fld ev ''interface''"
      using newMember_extension[OF nm i] .
    have fi': "findIndex (\<lambda>m. extension m = fld ev ''interface'') ((members q)[i := m]) = Some i"
      using fi em by (auto simp: findIndex_Some_iff)
    from fi have "i < length (members q)" by (simp add: findIndex_Some_iff)
    then show ?thesis
      using nm fi fi' newMember_idem[OF nm]
      by (simp add: updatedQueue_def)
  qed
qed

lemma map_of_applyToQueues:
  "map_of (applyToQueues ty ev qnames qs) qn =
     (if qn \<in> set qnames then map_option (updatedQueue ty ev) (map_of qs qn) else map_of qs qn)"
  unfolding applyToQueues_def
proof (induction qnames arbitrary: qs)
  case Nil
  then show ?case by simp
next
  case (Cons a qnames)
  show ?case
    by (simp add: Cons.IH map_of_applyToQueue option.map_comp o_def updatedQueue_idem)
qed

lemma find_updatedQueue:
  "find (\<lambda>m. extension m = fld ev ''interface'') (members (updatedQueue ty ev q)) =
     (case findIndex (\<lambda>m. extension m = fld ev ''interface'') (members q) of
        None \<Rightarrow> None
      | Some i \<Rightarrow>
          Some (case newMember ty ev (members q ! i) of None \<Rightarrow> members q ! i | Some m \<Rightarrow> m))"
proof (cases "findIndex (\<lambda>m. extension m = fld ev ''interface'') (members q)")
  case None
  then show ?thesis by (simp add: updatedQueue_def find_None_findIndex)
next
  case fi: (Some i)
  show ?thesis
  proof (cases "newMember ty ev (members q ! i)")
    case None
    with fi show ?thesis by (simp add: updatedQueue_def find_findIndex)
  next
    case nm: (Some m)
    from fi have i: "extension (members q ! i) = fld ev ''interface''" "i < length (members q)"
      by (simp_all add: findIndex_Some_iff)
    have em: "extension m = fld ev ''interface''"
      using newMember_extension[OF nm i(1)] .
    have fi': "findIndex (\<lambda>m. extension m = fld ev ''interface'') ((members q)[i := m]) = Some i"
      using fi em by (auto simp: findIndex_Some_iff)
    show ?thesis
      using nm fi i find_findIndex[OF fi'] by (simp add: updatedQueue_def)
  qed
qed

lemma find_updatedQueue_None:
  assumes "find (\<lambda>m. extension m = fld ev ''interface'') (members q) = None"
  shows "find (\<lambda>m. extension m = fld ev ''interface'') (members (updatedQueue ty ev q)) = None"
proof -
  from assms have "findIndex (\<lambda>m. extension m = fld ev ''interface'') (members q) = None"
    by (simp add: find_None_findIndex)
  then show ?thesis by (simp add: find_updatedQueue)
qed

lemma mergedNotification_absent:
  "map_of qs (firstOf qnames) = None \<Longrightarrow> mergedNotification ty ev qnames qs = []"
  by (simp add: mergedNotification_def)

lemma mergedNotification_no_member:
  "map_of qs (firstOf qnames) = Some q \<Longrightarrow>
   find (\<lambda>m. extension m = fld ev ''interface'') (members q) = None \<Longrightarrow>
   mergedNotification ty ev qnames qs = []"
  by (simp add: mergedNotification_def)

lemma mergedNotification_none:
  assumes "case map_of qs (firstOf qnames) of
             None \<Rightarrow> True
           | Some q \<Rightarrow> find (\<lambda>m. extension m = fld ev ''interface'') (members q) = None"
  shows "mergedNotification ty ev qnames (applyToQueues ty ev qnames qs) = []"
proof (cases "map_of qs (firstOf qnames)")
  case None
  then have "map_of (applyToQueues ty ev qnames qs) (firstOf qnames) = None"
    by (simp add: map_of_applyToQueues)
  then show ?thesis by (rule mergedNotification_absent)
next
  case (Some q)
  with assms have nf: "find (\<lambda>m. extension m = fld ev ''interface'') (members q) = None"
    by simp
  have "map_of (applyToQueues ty ev qnames qs) (firstOf qnames) = Some q \<or>
        map_of (applyToQueues ty ev qnames qs) (firstOf qnames) = Some (updatedQueue ty ev q)"
    using Some by (simp add: map_of_applyToQueues)
  then show ?thesis
    using nf find_updatedQueue_None[OF nf, of ty] mergedNotification_no_member
    by blast
qed

lemma processPendingEvent_unfold:
  assumes "map_of (pendingEvents s) ext = Some v" "eventOf v = (event, qnames)"
  shows "processPendingEvent ext ty s =
     s\<lparr>pendingEvents := AList.delete (timeoutKey ext) (AList.delete ext (pendingEvents s)),
       queues := applyToQueues ty event qnames (queues s),
       emitted := emitted s
          @ mergedNotification ty event qnames (applyToQueues ty event qnames (queues s))
          @ [QueuesUpdated (map snd (applyToQueues ty event qnames (queues s)))]\<rparr>"
  using assms by (simp add: processPendingEvent_def Let_def)

lemma parseInt_1: "parseInt (Some ''1'') = Num 1"
  by (simp add: parseInt_def isWhiteSpace_def isDigit_def digitValue_def digitsValue_def Let_def)

lemma parseInt_17: "parseInt (Some ''17'') = Num 17"
  by (simp add: parseInt_def isWhiteSpace_def isDigit_def digitValue_def digitsValue_def Let_def)

lemma parseInt_0: "parseInt (Some ''0'') = Num 0"
  by (simp add: parseInt_def isWhiteSpace_def isDigit_def digitValue_def digitsValue_def Let_def)

lemma eventOf_PEvent: "eventOf (PEvent p) = (payload p, pqueues p)"
  by (simp add: eventOf_def)

lemma updatedQueue_pause:
  assumes "findIndex (\<lambda>m. extension m = fld ev ''interface'') (members q) = Some i"
  shows "updatedQueue ''QueueMemberPause'' ev q =
           q\<lparr>members := (members q)[i := (members q ! i)
                \<lparr>paused := parseInt (fld ev ''paused''),
                 pausedReason := fld ev ''pausedreason'',
                 lastPause := parseInt (fld ev ''lastpause'')\<rparr>]\<rparr>"
  using assms by (simp add: updatedQueue_def newMember_def)

lemma updatedQueue_status:
  assumes "findIndex (\<lambda>m. extension m = fld ev ''interface'') (members q) = Some i"
  shows "updatedQueue ''QueueMemberStatus'' ev q = q\<lparr>members := (members q)[i := memberOfEvent ev]\<rparr>"
  using assms by (simp add: updatedQueue_def newMember_def)

section \<open>The coalesced pause\<close>

text \<open>
  C5. When \<open>processPendingEvent\<close> applies a pause event to a queue of its list in which
  the member is found at index \<open>i\<close>, the queue keeps its other fields and its member list
  changes at index \<open>i\<close> only; the record there keeps every field but \<open>paused\<close>,
  \<open>pausedReason\<close> and \<open>lastPause\<close>, which come from the event.
\<close>

theorem pause_changes_only_pause_fields:
  assumes "map_of (pendingEvents s) ext = Some (PEvent p)"
      and "qn \<in> set (pqueues p)"
      and "map_of (queues s) qn = Some q"
      and "findIndex (\<lambda>m. extension m = fld (payload p) ''interface'') (members q) = Some i"
  shows "\<exists>m. map_of (queues (processPendingEvent ext ''QueueMemberPause'' s)) qn =
               Some (q\<lparr>members := (members q)[i := m]\<rparr>) \<and>
             i < length (members q) \<and>
             paused m = parseInt (fld (payload p) ''paused'') \<and>
             pausedReason m = fld (payload p) ''pausedreason'' \<and>
             lastPause m = parseInt (fld (payload p) ''lastpause'') \<and>
             name m = name (members q ! i) \<and>
             extension m = extension (members q ! i) \<and>
             stateInterface m = stateInterface (members q ! i) \<and>
             membership m = membership (members q ! i) \<and>
             penalty m = penalty (members q ! i) \<and>
             callsTaken m = callsTaken (members q ! i) \<and>
             lastCall m = lastCall (members q ! i) \<and>
             loginTime m = loginTime (members q ! i) \<and>
             inCall m = inCall (members q ! i) \<and>
             status m = status (members q ! i) \<and>
             wrapupTime m = wrapupTime (members q ! i)"
proof -
  let ?m = "(members q ! i)\<lparr>paused := parseInt (fld (payload p) ''paused''),
                             pausedReason := fld (payload p) ''pausedreason'',
                             lastPause := parseInt (fld (payload p) ''lastpause'')\<rparr>"
  have "queues (processPendingEvent ext ''QueueMemberPause'' s) =
          applyToQueues ''QueueMemberPause'' (payload p) (pqueues p) (queues s)"
    using assms(1) by (simp add: processPendingEvent_unfold[OF _ eventOf_PEvent])
  then have "map_of (queues (processPendingEvent ext ''QueueMemberPause'' s)) qn =
          Some (q\<lparr>members := (members q)[i := ?m]\<rparr>)"
    using assms(2,3) updatedQueue_pause[OF assms(4)] by (simp add: map_of_applyToQueues)
  moreover have "i < length (members q)"
    using assms(4) by (simp add: findIndex_Some_iff)
  ultimately show ?thesis
    by (intro exI[of _ ?m]) simp
qed

theorem pause_changes_only_pause_fields_witness:
  "map_of (queues (processPendingEvent (Some ''SIP/100'') ''QueueMemberPause'' c10State)) (Some ''B'') =
     Some (snd (queueWith ''B'' [pausedAgent ''SIP/100'']))"
proof -
  have f: "findIndex (\<lambda>m. extension m = fld (pauseEvent ''B'' ''SIP/100'' ''1'' ''Lunch'') ''interface'')
             (members (snd (queueWith ''B'' [agent ''SIP/100'']))) = Some 0"
    by (simp add: queueWith_def agent_def pauseEvent_def fld_def)
  from pause_changes_only_pause_fields[of c10State "Some ''SIP/100''"
      "\<lparr>payload = pauseEvent ''B'' ''SIP/100'' ''1'' ''Lunch'', pqueues = [Some ''A'', Some ''B'']\<rparr>"
      "Some ''B''" "snd (queueWith ''B'' [agent ''SIP/100''])" 0]
  obtain m where
    "map_of (queues (processPendingEvent (Some ''SIP/100'') ''QueueMemberPause'' c10State)) (Some ''B'') =
       Some ((snd (queueWith ''B'' [agent ''SIP/100'']))\<lparr>members := [m]\<rparr>)"
    "paused m = Num 1" "pausedReason m = Some ''Lunch''" "lastPause m = Num 17"
    "name m = name (agent ''SIP/100'')" "extension m = extension (agent ''SIP/100'')"
    "stateInterface m = stateInterface (agent ''SIP/100'')"
    "membership m = membership (agent ''SIP/100'')" "penalty m = penalty (agent ''SIP/100'')"
    "callsTaken m = callsTaken (agent ''SIP/100'')" "lastCall m = lastCall (agent ''SIP/100'')"
    "loginTime m = loginTime (agent ''SIP/100'')" "inCall m = inCall (agent ''SIP/100'')"
    "status m = status (agent ''SIP/100'')" "wrapupTime m = wrapupTime (agent ''SIP/100'')"
    using f
    by (auto simp: c10State_def connectedCache_def newCache_def queueWith_def
                   pauseEvent_def fld_def parseInt_1 parseInt_17)
  moreover from this have "m = pausedAgent ''SIP/100''"
    by (simp add: pausedAgent_def agent_def)
  ultimately show ?thesis
    by (simp add: queueWith_def)
qed

section \<open>A merged notification needs the member in the first queue\<close>

text \<open>
  C10. When \<open>processPendingEvent\<close> runs for a stored entry and the first queue of its list
  is not in the cache, or has no member with the extension of the event, then it emits
  no \<open>memberStatusChanged\<close> and no \<open>memberPauseChanged\<close>, whatever the kind of the event
  and whatever it updated in the other queues: it emits \<open>queuesUpdated\<close> alone, with the
  queues as they are after the update.
\<close>

theorem no_merged_notification_without_first_member:
  assumes "map_of (pendingEvents s) ext = Some v"
      and "eventOf v = (event, qnames)"
      and "case map_of (queues s) (firstOf qnames) of
             None \<Rightarrow> True
           | Some q \<Rightarrow> find (\<lambda>m. extension m = fld event ''interface'') (members q) = None"
  shows "emitted (processPendingEvent ext ty s) =
           emitted s @ [QueuesUpdated (map snd (queues (processPendingEvent ext ty s)))]"
  using assms by (simp add: processPendingEvent_unfold mergedNotification_none)

lemma c10State_queues:
  "queues (processPendingEvent (Some ''SIP/100'') ''QueueMemberPause'' c10State) =
     [queueWith ''B'' [pausedAgent ''SIP/100'']]"
  by (simp add: processPendingEvent_def c10State_def connectedCache_def newCache_def queueWith_def
       eventOf_def applyToQueues_def applyToQueue_def newMember_def agent_def pauseEvent_def fld_def
       parseInt_1 parseInt_17 defaultQueue_def pausedAgent_def Let_def)

theorem no_merged_notification_witness:
  "emitted (processPendingEvent (Some ''SIP/100'') ''QueueMemberPause'' c10State) =
     [QueuesUpdated [snd (queueWith ''B'' [pausedAgent ''SIP/100''])]]"
  using no_merged_notification_without_first_member[of c10State "Some ''SIP/100''"
     "PEvent \<lparr>payload = pauseEvent ''B'' ''SIP/100'' ''1'' ''Lunch'',
              pqueues = [Some ''A'', Some ''B'']\<rparr>"
     "pauseEvent ''B'' ''SIP/100'' ''1'' ''Lunch''" "[Some ''A'', Some ''B'']" "''QueueMemberPause''"]
  by (simp add: c10State_queues)
     (simp add: c10State_def connectedCache_def newCache_def queueWith_def eventOf_def firstOf_def)

section \<open>Member added\<close>

lemma extension_memberOfEvent: "extension (memberOfEvent ev) = fld ev ''interface''"
  by (simp add: memberOfEvent_def)

lemma handleQueueMemberAdded_present:
  assumes "map_of (queues s) (fld event ''queue'') = Some q"
      and "find (\<lambda>m. extension m = fld event ''interface'') (members q) \<noteq> None"
  shows "handleQueueMemberAdded event s = s"
proof -
  from assms(2) obtain i where
    "findIndex (\<lambda>m. extension m = fld event ''interface'') (members q) = Some i"
    by (auto simp: find_None_findIndex)
  with assms(1) show ?thesis
    by (simp add: handleQueueMemberAdded_def extension_memberOfEvent Let_def)
qed

lemma handleQueueMemberAdded_absent:
  assumes "case map_of (queues s) (fld event ''queue'') of
             None \<Rightarrow> True
           | Some q \<Rightarrow> find (\<lambda>m. extension m = fld event ''interface'') (members q) = None"
  shows "handleQueueMemberAdded event s =
           (let q0 = (case map_of (queues s) (fld event ''queue'') of
                        None \<Rightarrow> defaultQueue (fld event ''queue'') | Some q \<Rightarrow> q);
                qs = AList.update (fld event ''queue'')
                       (q0\<lparr>members := members q0 @ [memberOfEvent event]\<rparr>) (queues s)
            in s\<lparr>queues := qs,
                 emitted := emitted s @ [MemberAdded (fld event ''queue'') (memberOfEvent event),
                                         QueuesUpdated (map snd qs)]\<rparr>)"
proof (cases "map_of (queues s) (fld event ''queue'')")
  case None
  then show ?thesis
    by (simp add: handleQueueMemberAdded_def extension_memberOfEvent Let_def emit_def
                  defaultQueue_def)
next
  case (Some q)
  with assms have "findIndex (\<lambda>m. extension m = fld event ''interface'') (members q) = None"
    by (simp add: find_None_findIndex)
  with Some show ?thesis
    by (simp add: handleQueueMemberAdded_def extension_memberOfEvent Let_def emit_def)
qed

lemma find_append_last:
  "find P xs = None \<Longrightarrow> P y \<Longrightarrow> find P (xs @ [y]) = Some y"
  by (induction xs) (auto split: if_splits)

lemma filter_none: "find P xs = None \<Longrightarrow> filter P xs = []"
  by (induction xs) (auto split: if_splits)

text \<open>
  C8. A member-added event for an extension that the named queue already has changes
  nothing and emits nothing. For an extension that the queue does not have (the queue is
  created with its defaults when it is unknown), the record of the event is appended at
  the end of the member list, which then holds exactly one record of that extension, and
  \<open>memberAdded\<close> is emitted once, followed by \<open>queuesUpdated\<close>. Handling the same event a
  second time changes nothing.
\<close>

theorem member_added_idempotent:
  "(\<forall>q. map_of (queues s) (fld event ''queue'') = Some q \<and>
        find (\<lambda>m. extension m = fld event ''interface'') (members q) \<noteq> None \<longrightarrow>
        handleQueueMemberAdded event s = s) \<and>
   ((case map_of (queues s) (fld event ''queue'') of
       None \<Rightarrow> True
     | Some q \<Rightarrow> find (\<lambda>m. extension m = fld event ''interface'') (members q) = None) \<longrightarrow>
    (\<exists>q'. map_of (queues (handleQueueMemberAdded event s)) (fld event ''queue'') = Some q' \<and>
          members q' =
            (case map_of (queues s) (fld event ''queue'') of None \<Rightarrow> [] | Some q \<Rightarrow> members q)
              @ [memberOfEvent event] \<and>
          length (filter (\<lambda>m. extension m = fld event ''interface'') (members q')) = 1) \<and>
    emitted (handleQueueMemberAdded event s) =
      emitted s @ [MemberAdded (fld event ''queue'') (memberOfEvent event),
                   QueuesUpdated (map snd (queues (handleQueueMemberAdded event s)))]) \<and>
   handleQueueMemberAdded event (handleQueueMemberAdded event s) = handleQueueMemberAdded event s"
proof (intro conjI allI impI)
  fix q
  assume "map_of (queues s) (fld event ''queue'') = Some q \<and>
          find (\<lambda>m. extension m = fld event ''interface'') (members q) \<noteq> None"
  then show "handleQueueMemberAdded event s = s"
    using handleQueueMemberAdded_present by blast
next
  assume a: "case map_of (queues s) (fld event ''queue'') of
               None \<Rightarrow> True
             | Some q \<Rightarrow> find (\<lambda>m. extension m = fld event ''interface'') (members q) = None"
  show "\<exists>q'. map_of (queues (handleQueueMemberAdded event s)) (fld event ''queue'') = Some q' \<and>
          members q' =
            (case map_of (queues s) (fld event ''queue'') of None \<Rightarrow> [] | Some q \<Rightarrow> members q)
              @ [memberOfEvent event] \<and>
          length (filter (\<lambda>m. extension m = fld event ''interface'') (members q')) = 1"
    using a
    by (auto simp: handleQueueMemberAdded_absent[OF a] Let_def update_conv' defaultQueue_def
                   extension_memberOfEvent filter_none split: option.splits)
  show "emitted (handleQueueMemberAdded event s) =
      emitted s @ [MemberAdded (fld event ''queue'') (memberOfEvent event),
                   QueuesUpdated (map snd (queues (handleQueueMemberAdded event s)))]"
    by (simp add: handleQueueMemberAdded_absent[OF a] Let_def)
next
  show "handleQueueMemberAdded event (handleQueueMemberAdded event s) = handleQueueMemberAdded event s"
  proof (cases "case map_of (queues s) (fld event ''queue'') of
               None \<Rightarrow> True
             | Some q \<Rightarrow> find (\<lambda>m. extension m = fld event ''interface'') (members q) = None")
    case True
    let ?s' = "handleQueueMemberAdded event s"
    let ?q0 = "case map_of (queues s) (fld event ''queue'') of
                 None \<Rightarrow> defaultQueue (fld event ''queue'') | Some q \<Rightarrow> q"
    have m: "map_of (queues ?s') (fld event ''queue'') =
               Some (?q0\<lparr>members := members ?q0 @ [memberOfEvent event]\<rparr>)"
      by (simp add: handleQueueMemberAdded_absent[OF True] Let_def update_conv')
    have "find (\<lambda>m. extension m = fld event ''interface'') (members ?q0) = None"
      using True by (auto simp: defaultQueue_def split: option.splits)
    then have "find (\<lambda>m. extension m = fld event ''interface'')
            (members (?q0\<lparr>members := members ?q0 @ [memberOfEvent event]\<rparr>)) \<noteq> None"
      using find_append_last[of "\<lambda>m. extension m = fld event ''interface''" "members ?q0"
              "memberOfEvent event"]
      by (simp add: extension_memberOfEvent)
    with m show ?thesis by (rule handleQueueMemberAdded_present)
  next
    case False
    then obtain q where "map_of (queues s) (fld event ''queue'') = Some q"
        "find (\<lambda>m. extension m = fld event ''interface'') (members q) \<noteq> None"
      by (auto split: option.splits)
    then have "handleQueueMemberAdded event s = s"
      by (rule handleQueueMemberAdded_present)
    then show ?thesis by simp
  qed
qed

theorem member_added_idempotent_witness:
  "handleQueueMemberAdded (addedEvent ''B'' ''SIP/100'')
     (connectedCache [queueWith ''B'' [agent ''SIP/100'']]) =
     connectedCache [queueWith ''B'' [agent ''SIP/100'']] \<and>
   emitted (handleQueueMemberAdded (addedEvent ''B'' ''SIP/100'') (connectedCache [])) =
     [MemberAdded (Some ''B'') (memberOfEvent (addedEvent ''B'' ''SIP/100'')),
      QueuesUpdated (map snd (queues (handleQueueMemberAdded (addedEvent ''B'' ''SIP/100'')
                                        (connectedCache []))))]"
proof -
  have 1: "fld (addedEvent ''B'' ''SIP/100'') ''queue'' = Some ''B''"
          "fld (addedEvent ''B'' ''SIP/100'') ''interface'' = Some ''SIP/100''"
    by (simp_all add: addedEvent_def fld_def)
  have 2: "map_of (queues (connectedCache [queueWith ''B'' [agent ''SIP/100'']])) (Some ''B'') =
             Some (snd (queueWith ''B'' [agent ''SIP/100'']))"
          "find (\<lambda>m. extension m = Some ''SIP/100'')
             (members (snd (queueWith ''B'' [agent ''SIP/100'']))) = Some (agent ''SIP/100'')"
          "map_of (queues (connectedCache [])) (Some ''B'') = None"
          "emitted (connectedCache []) = []"
    by (simp_all add: connectedCache_def newCache_def queueWith_def agent_def)
  show ?thesis
    using member_added_idempotent[of "connectedCache [queueWith ''B'' [agent ''SIP/100'']]"
            "addedEvent ''B'' ''SIP/100''"]
          member_added_idempotent[of "connectedCache []" "addedEvent ''B'' ''SIP/100''"]
    by (simp add: 1 2)
qed

section \<open>The outcomes of a command\<close>

text \<open>
  C6. \<open>_send\<close> with an action and a timeout (5000 when none is given) rejects with the
  not-connected error when the cache is not connected. When it is connected: it rejects
  with the timeout error when the transport never answers, or answers when the timer is
  already due; for an answer that comes earlier, it rejects with the invalid-response
  error when the response is null, with the error of the switch when the response says
  \<open>Error\<close> (carrying the message of the response when it has one), and it resolves
  with the response otherwise. The timer runs for the given timeout when that is between
  1 and \<open>2^31 - 1\<close> milliseconds.
\<close>

theorem send_outcomes:
  "(\<not> isConnected s \<longrightarrow> send s a t oc = Inl NotConnected) \<and>
   (isConnected s \<longrightarrow>
      send s a t NoReply = Inl (Timeout a) \<and>
      (\<forall>d r. timer_delay (case t of None \<Rightarrow> 5000 | Some n \<Rightarrow> n) \<le> d \<longrightarrow>
             send s a t (Reply d r) = Inl (Timeout a)) \<and>
      (\<forall>d. d < timer_delay (case t of None \<Rightarrow> 5000 | Some n \<Rightarrow> n) \<longrightarrow>
             send s a t (Reply d None) = Inl (InvalidResponse a)) \<and>
      (\<forall>d r. d < timer_delay (case t of None \<Rightarrow> 5000 | Some n \<Rightarrow> n) \<and>
             response r = Some ''Error'' \<longrightarrow>
             send s a t (Reply d (Some r)) = Inl (RemoteError (remoteMessage r))) \<and>
      (\<forall>d r. d < timer_delay (case t of None \<Rightarrow> 5000 | Some n \<Rightarrow> n) \<and>
             response r \<noteq> Some ''Error'' \<longrightarrow>
             send s a t (Reply d (Some r)) = Inr r)) \<and>
   (\<forall>r m. message r = Some m \<and> m \<noteq> [] \<longrightarrow> remoteMessage r = m) \<and>
   (\<forall>n. 1 \<le> n \<and> n \<le> 2147483647 \<longrightarrow> timer_delay n = n) \<and>
   timer_delay 5000 = 5000"
  by (auto simp: send_def onResponse_def remoteMessage_def timer_delay_def Let_def)

theorem send_outcomes_witness:
  "send newCache QueueStatus None (Reply 20 (Some statusResponse)) = Inl NotConnected \<and>
   send (connectedCache []) QueueStatus (Some 1000) NoReply = Inl (Timeout QueueStatus) \<and>
   send (connectedCache []) QueueStatus (Some 1000) (Reply 1000 (Some statusResponse)) =
     Inl (Timeout QueueStatus) \<and>
   send (connectedCache []) QueueStatus None (Reply 20 None) = Inl (InvalidResponse QueueStatus) \<and>
   send (connectedCache []) QueueStatus None (Reply 20 (Some errorResponse)) =
     Inl (RemoteError ''Permission denied'') \<and>
   send (connectedCache []) QueueStatus None (Reply 20 (Some statusResponse)) = Inr statusResponse"
proof -
  have c: "isConnected (connectedCache [])" "\<not> isConnected newCache"
    by (simp_all add: connectedCache_def newCache_def)
  have r: "response errorResponse = Some ''Error''" "message errorResponse = Some ''Permission denied''"
          "response statusResponse \<noteq> Some ''Error''"
    by (simp_all add: errorResponse_def statusResponse_def success_def)
  have d: "timer_delay 1000 = 1000" "timer_delay 5000 = 5000"
    by (simp_all add: timer_delay_def)
  show ?thesis
    using send_outcomes[of newCache QueueStatus None "Reply 20 (Some statusResponse)"]
          send_outcomes[of "connectedCache []" QueueStatus "Some 1000" NoReply]
          send_outcomes[of "connectedCache []" QueueStatus None NoReply]
    by (simp add: c r d)
qed

text \<open>
  C7. Each of \<open>pauseMember\<close>, \<open>unpauseMember\<close>, \<open>addMemberToQueue\<close> and
  \<open>removeMemberFromQueue\<close> returns a boolean and raises nothing: it returns \<open>true\<close> exactly
  when its one call of \<open>_send\<close> resolves with a response that says \<open>Success\<close>, and
  \<open>false\<close> when the call is rejected (as it is when the cache is not connected) or
  resolves with another response.
\<close>

theorem mutating_operations_return_success:
  "pauseMember s i reason oc =
     Inr (case send s (QueuePause i None (Some (case reason of None \<Rightarrow> [] | Some x \<Rightarrow> x))) None oc of
            Inl e \<Rightarrow> False | Inr r \<Rightarrow> response r = Some ''Success'') \<and>
   unpauseMember s i oc =
     Inr (case send s (QueueUnpause i) None oc of
            Inl e \<Rightarrow> False | Inr r \<Rightarrow> response r = Some ''Success'') \<and>
   addMemberToQueue s i n q p y oc =
     Inr (case send s (QueueAdd i q (case p of None \<Rightarrow> Num 0 | Some v \<Rightarrow> v) n
                         (case y of None \<Rightarrow> Num 0 | Some v \<Rightarrow> v)) None oc of
            Inl e \<Rightarrow> False | Inr r \<Rightarrow> response r = Some ''Success'') \<and>
   removeMemberFromQueue s i q oc =
     Inr (case send s (QueueRemove i q) None oc of
            Inl e \<Rightarrow> False | Inr r \<Rightarrow> response r = Some ''Success'') \<and>
   (\<not> isConnected s \<longrightarrow>
      pauseMember s i reason oc = Inr False \<and> unpauseMember s i oc = Inr False \<and>
      addMemberToQueue s i n q p y oc = Inr False \<and> removeMemberFromQueue s i q oc = Inr False)"
  by (auto simp: pauseMember_def unpauseMember_def addMemberToQueue_def removeMemberFromQueue_def
                 catchFalse_def awaitSuccess_def send_def Let_def
           split: sum.splits option.splits)

theorem mutating_operations_witness:
  "pauseMember newCache (Some ''SIP/100'') (Some ''Lunch'') (Reply 20 (Some (success None))) = Inr False \<and>
   pauseMember (connectedCache []) (Some ''SIP/100'') (Some ''Lunch'') (Reply 20 (Some (success None))) =
     Inr True \<and>
   pauseMember (connectedCache []) (Some ''SIP/100'') (Some ''Lunch'') (Reply 20 (Some errorResponse)) =
     Inr False \<and>
   removeMemberFromQueue (connectedCache []) (Some ''SIP/100'') (Some ''A'') NoReply = Inr False"
proof -
  have c: "isConnected (connectedCache [])" "\<not> isConnected newCache"
    by (simp_all add: connectedCache_def newCache_def)
  have r: "response errorResponse = Some ''Error''" "response (success None) = Some ''Success''"
    by (simp_all add: errorResponse_def success_def)
  show ?thesis
    using mutating_operations_return_success[of newCache "Some ''SIP/100''" "Some ''Lunch''"
            "Reply 20 (Some (success None))"]
          mutating_operations_return_success[of "connectedCache []" "Some ''SIP/100''" "Some ''Lunch''"
            "Reply 20 (Some (success None))"]
          mutating_operations_return_success[of "connectedCache []" "Some ''SIP/100''" "Some ''Lunch''"
            "Reply 20 (Some errorResponse)"]
          mutating_operations_return_success[of "connectedCache []" "Some ''SIP/100''" _ NoReply _
            "Some ''A''"]
    by (simp add: c r send_def onResponse_def timer_delay_def)
qed

section \<open>Full resynchronisation\<close>

lemma updateQueues_rejected: "send s QueueStatus None oc = Inl e \<Longrightarrow> updateQueues oc s = s"
  by (simp add: updateQueues_def)

lemma updateQueues_resolved:
  "send s QueueStatus None oc = Inr r \<Longrightarrow>
   updateQueues oc s =
     (case events r of
        None \<Rightarrow> s
      | Some evs \<Rightarrow> s\<lparr>queues := buildQueues evs [] None,
                       emitted := emitted s @ [QueuesUpdated (map snd (buildQueues evs [] None))]\<rparr>)"
  by (simp add: updateQueues_def emit_def Let_def split: option.splits)

text \<open>
  C2. \<open>updateQueues\<close> leaves the cache as it is, queue map included, when its call of \<open>_send\<close>
  is rejected: when the cache is not connected, when the transport does not answer before
  the timer, when the response is null and when the response says \<open>Error\<close>. When the call
  resolves with a response that has a list of events, the queue map becomes the map built
  from that list alone, whatever it was before, and \<open>queuesUpdated\<close> is emitted with it. A
  response without a list of events changes nothing.
\<close>

theorem resync_replaces_or_keeps:
  "(\<forall>e. send s QueueStatus None oc = Inl e \<longrightarrow> updateQueues oc s = s) \<and>
   (\<not> isConnected s \<longrightarrow> updateQueues oc s = s) \<and>
   updateQueues NoReply s = s \<and>
   (\<forall>d r. 5000 \<le> d \<longrightarrow> updateQueues (Reply d r) s = s) \<and>
   (\<forall>d. updateQueues (Reply d None) s = s) \<and>
   (\<forall>d r. response r = Some ''Error'' \<longrightarrow> updateQueues (Reply d (Some r)) s = s) \<and>
   (\<forall>r evs. send s QueueStatus None oc = Inr r \<and> events r = Some evs \<longrightarrow>
      queues (updateQueues oc s) = buildQueues evs [] None \<and>
      emitted (updateQueues oc s) = emitted s @ [QueuesUpdated (map snd (buildQueues evs [] None))]) \<and>
   (\<forall>r. send s QueueStatus None oc = Inr r \<and> events r = None \<longrightarrow> updateQueues oc s = s)"
proof (intro conjI allI impI)
  fix e
  assume "send s QueueStatus None oc = Inl e"
  then show "updateQueues oc s = s" by (rule updateQueues_rejected)
next
  assume "\<not> isConnected s"
  then show "updateQueues oc s = s" by (simp add: updateQueues_def send_def)
next
  show "updateQueues NoReply s = s" by (simp add: updateQueues_def send_def Let_def)
next
  fix d :: nat and r :: "reply option"
  assume "5000 \<le> d"
  then show "updateQueues (Reply d r) s = s"
    by (simp add: updateQueues_def send_def timer_delay_def Let_def)
next
  fix d
  show "updateQueues (Reply d None) s = s"
    by (simp add: updateQueues_def send_def onResponse_def Let_def)
next
  fix d and r :: reply
  assume "response r = Some ''Error''"
  then show "updateQueues (Reply d (Some r)) s = s"
    by (simp add: updateQueues_def send_def onResponse_def Let_def)
next
  fix r evs
  assume a: "send s QueueStatus None oc = Inr r \<and> events r = Some evs"
  then show "queues (updateQueues oc s) = buildQueues evs [] None"
    by (simp add: updateQueues_resolved)
  from a show "emitted (updateQueues oc s) =
                 emitted s @ [QueuesUpdated (map snd (buildQueues evs [] None))]"
    by (simp add: updateQueues_resolved)
next
  fix r
  assume "send s QueueStatus None oc = Inr r \<and> events r = None"
  then show "updateQueues oc s = s" by (simp add: updateQueues_resolved)
qed

lemma build_statusResponse:
  "buildQueues [paramsEvent ''A'', queueMemberEvent ''A'' ''SIP/100'',
                queueMemberEvent ''A'' ''SIP/101'', paramsEvent ''B'',
                queueMemberEvent ''B'' ''SIP/100''] [] None =
     [(Some ''A'', (queueOfParams (paramsEvent ''A''))
         \<lparr>members := [memberOfQueueMember (queueMemberEvent ''A'' ''SIP/100''),
                      memberOfQueueMember (queueMemberEvent ''A'' ''SIP/101'')]\<rparr>),
      (Some ''B'', (queueOfParams (paramsEvent ''B''))
         \<lparr>members := [memberOfQueueMember (queueMemberEvent ''B'' ''SIP/100'')]\<rparr>)]"
proof -
  have e: "fld (paramsEvent q) ''event'' = Some ''QueueParams''"
          "fld (paramsEvent q) ''queue'' = Some q"
          "fld (queueMemberEvent q l) ''event'' = Some ''QueueMember''" for q l
    by (simp_all add: paramsEvent_def queueMemberEvent_def fld_def)
  have m: "members (queueOfParams ev) = []" for ev
    by (simp add: queueOfParams_def)
  show ?thesis
    by (simp add: e m pushMember_def)
qed

theorem resync_replaces_or_keeps_witness:
  "map (\<lambda>(k, q). (k, length (members q)))
     (queues (updateQueues (Reply 20 (Some statusResponse))
                (connectedCache [queueWith ''X'' [agent ''SIP/100'']]))) =
     [(Some ''A'', 2), (Some ''B'', 1)] \<and>
   updateQueues NoReply (connectedCache [queueWith ''X'' [agent ''SIP/100'']]) =
     connectedCache [queueWith ''X'' [agent ''SIP/100'']]"
proof -
  have s: "send (connectedCache [queueWith ''X'' [agent ''SIP/100'']]) QueueStatus None
             (Reply 20 (Some statusResponse)) = Inr statusResponse"
    by (simp add: send_def onResponse_def timer_delay_def connectedCache_def newCache_def
                  statusResponse_def success_def)
  have ev: "events statusResponse =
              Some [paramsEvent ''A'', queueMemberEvent ''A'' ''SIP/100'',
                    queueMemberEvent ''A'' ''SIP/101'', paramsEvent ''B'',
                    queueMemberEvent ''B'' ''SIP/100'']"
    by (simp add: statusResponse_def success_def)
  have a: "queues (updateQueues (Reply 20 (Some statusResponse))
                      (connectedCache [queueWith ''X'' [agent ''SIP/100'']])) =
             buildQueues [paramsEvent ''A'', queueMemberEvent ''A'' ''SIP/100'',
                          queueMemberEvent ''A'' ''SIP/101'', paramsEvent ''B'',
                          queueMemberEvent ''B'' ''SIP/100''] [] None"
    using resync_replaces_or_keeps[of "connectedCache [queueWith ''X'' [agent ''SIP/100'']]"
            "Reply 20 (Some statusResponse)"] s ev
    by blast
  have b: "updateQueues NoReply (connectedCache [queueWith ''X'' [agent ''SIP/100'']]) =
             connectedCache [queueWith ''X'' [agent ''SIP/100'']]"
    using resync_replaces_or_keeps[of "connectedCache [queueWith ''X'' [agent ''SIP/100'']]" NoReply]
    by blast
  show ?thesis
    unfolding a b build_statusResponse by simp
qed

section \<open>Uniqueness of the extensions in a queue\<close>

text \<open>
  The handling of member-added and member-removed events and the coalesced update keep
  the extensions of every queue distinct.
\<close>

lemma uniqueMembers_update:
  "uniqueMembers qs \<Longrightarrow> distinct (map extension (members q)) \<Longrightarrow>
   uniqueMembers (AList.update k q qs)"
  by (induction qs) (auto simp: uniqueMembers_def)

lemma uniqueMembers_map_of:
  "uniqueMembers qs \<Longrightarrow> map_of qs k = Some q \<Longrightarrow> distinct (map extension (members q))"
  by (induction qs) (auto simp: uniqueMembers_def split: if_splits)

lemma member_added_keeps_unique:
  assumes "uniqueMembers (queues s)"
  shows "uniqueMembers (queues (handleQueueMemberAdded event s))"
proof (cases "case map_of (queues s) (fld event ''queue'') of
                None \<Rightarrow> True
              | Some q \<Rightarrow> find (\<lambda>m. extension m = fld event ''interface'') (members q) = None")
  case True
  let ?q0 = "case map_of (queues s) (fld event ''queue'') of
               None \<Rightarrow> defaultQueue (fld event ''queue'') | Some q \<Rightarrow> q"
  have d: "distinct (map extension (members ?q0))"
    using assms uniqueMembers_map_of[OF assms]
    by (auto simp: defaultQueue_def split: option.splits)
  have "find (\<lambda>m. extension m = fld event ''interface'') (members ?q0) = None"
    using True by (auto simp: defaultQueue_def split: option.splits)
  then have "fld event ''interface'' \<notin> extension ` set (members ?q0)"
    by (auto simp: find_None_iff)
  with d have "distinct (map extension (members ?q0 @ [memberOfEvent event]))"
    by (simp add: extension_memberOfEvent)
  then show ?thesis
    using assms
    by (simp add: handleQueueMemberAdded_absent[OF True] Let_def uniqueMembers_update)
next
  case False
  then obtain q where "map_of (queues s) (fld event ''queue'') = Some q"
      "find (\<lambda>m. extension m = fld event ''interface'') (members q) \<noteq> None"
    by (auto split: option.splits)
  then have "handleQueueMemberAdded event s = s"
    by (rule handleQueueMemberAdded_present)
  with assms show ?thesis by simp
qed

lemma set_splice1: "set (splice1 i xs) \<subseteq> set xs"
  by (auto simp: splice1_def dest: in_set_takeD in_set_dropD)

lemma splice1_Cons:
  "splice1 0 (x # xs) = xs" "splice1 (Suc i) (x # xs) = x # splice1 i xs"
  by (simp_all add: splice1_def)

lemma distinct_splice1: "distinct (map f xs) \<Longrightarrow> distinct (map f (splice1 i xs))"
proof (induction xs arbitrary: i)
  case Nil
  then show ?case by (simp add: splice1_def)
next
  case (Cons x xs)
  show ?case
  proof (cases i)
    case 0
    with Cons.prems show ?thesis by (simp add: splice1_Cons)
  next
    case (Suc j)
    have "f x \<notin> f ` set (splice1 j xs)"
      using Cons.prems set_splice1[of j xs] by auto
    with Cons show ?thesis by (simp add: Suc splice1_Cons)
  qed
qed

lemma member_removed_keeps_unique:
  assumes "uniqueMembers (queues s)"
  shows "uniqueMembers (queues (handleQueueMemberRemoved event s))"
proof (cases "map_of (queues s) (fld event ''queue'')")
  case None
  with assms show ?thesis by (simp add: handleQueueMemberRemoved_def)
next
  case (Some q)
  have d: "distinct (map extension (members q))"
    using uniqueMembers_map_of[OF assms Some] .
  show ?thesis
  proof (cases "findIndex (\<lambda>m. extension m = fld event ''interface'') (members q)")
    case None
    with Some assms show ?thesis by (simp add: handleQueueMemberRemoved_def)
  next
    case fi: (Some i)
    have "uniqueMembers (AList.update (fld event ''queue'')
            (q\<lparr>members := splice1 i (members q)\<rparr>) (queues s))"
      using assms d by (intro uniqueMembers_update) (simp_all add: distinct_splice1)
    with Some fi show ?thesis
      by (simp add: handleQueueMemberRemoved_def Let_def emit_def)
  qed
qed

lemma extensions_updatedQueue:
  "map extension (members (updatedQueue ty ev q)) = map extension (members q)"
proof (cases "findIndex (\<lambda>m. extension m = fld ev ''interface'') (members q)")
  case None
  then show ?thesis by (simp add: updatedQueue_def)
next
  case fi: (Some i)
  then have i: "i < length (members q)" "extension (members q ! i) = fld ev ''interface''"
    by (simp_all add: findIndex_Some_iff)
  show ?thesis
  proof (cases "newMember ty ev (members q ! i)")
    case None
    with fi show ?thesis by (simp add: updatedQueue_def)
  next
    case (Some m)
    then have "extension m = extension (members q ! i)"
      using newMember_extension[OF Some i(2)] i(2) by simp
    then have "(map extension (members q))[i := extension m] = map extension (members q)"
      using i(1) by (simp add: list_update_same_conv)
    with fi Some show ?thesis
      by (simp add: updatedQueue_def map_update)
  qed
qed

lemma update_same: "map_of qs k = Some q \<Longrightarrow> AList.update k q qs = qs"
  by (induction qs) (auto split: if_splits)

lemma applyToQueue_updatedQueue:
  "map_of qs qn = Some q \<Longrightarrow> applyToQueue ty ev qn qs = AList.update qn (updatedQueue ty ev q) qs"
  by (cases "findIndex (\<lambda>m. extension m = fld ev ''interface'') (members q)";
      cases "newMember ty ev (members q ! (the (findIndex (\<lambda>m. extension m = fld ev ''interface'') (members q))))")
     (simp_all add: applyToQueue_def updatedQueue_def update_same)

lemma applyToQueue_keeps_unique:
  assumes "uniqueMembers qs"
  shows "uniqueMembers (applyToQueue ty ev qn qs)"
proof (cases "map_of qs qn")
  case None
  with assms show ?thesis by (simp add: applyToQueue_def)
next
  case (Some q)
  have "distinct (map extension (members (updatedQueue ty ev q)))"
    using uniqueMembers_map_of[OF assms Some] by (simp add: extensions_updatedQueue)
  with assms show ?thesis
    by (simp add: applyToQueue_updatedQueue[OF Some] uniqueMembers_update)
qed

lemma applyToQueues_keeps_unique:
  "uniqueMembers qs \<Longrightarrow> uniqueMembers (applyToQueues ty ev qnames qs)"
  unfolding applyToQueues_def
  by (induction qnames arbitrary: qs) (simp_all add: applyToQueue_keeps_unique)

lemma coalesced_update_keeps_unique:
  assumes "uniqueMembers (queues s)"
  shows "uniqueMembers (queues (processPendingEvent ext ty s))"
proof (cases "map_of (pendingEvents s) ext")
  case None
  with assms show ?thesis by (simp add: processPendingEvent_def)
next
  case (Some v)
  obtain event qnames where "eventOf v = (event, qnames)" by (cases "eventOf v")
  from processPendingEvent_unfold[OF Some this] assms show ?thesis
    by (simp add: applyToQueues_keeps_unique)
qed

subsection \<open>The resynchronisation does not\<close>

text \<open>
  C3. The resynchronisation appends every member entry of the response to the current
  queue and never looks for the extension in the list, as the handling of a member-added
  event does: a response that lists a member twice under a queue gives a queue with two
  records of the same extension.
\<close>

theorem resync_keeps_duplicate_members:
  "map (\<lambda>(k, q). (k, map extension (members q)))
     (queues (updateQueues (Reply 20 (Some duplicateResponse)) (connectedCache []))) =
     [(Some ''A'', [Some ''SIP/100'', Some ''SIP/100''])]"
proof -
  have e: "fld (paramsEvent q) ''event'' = Some ''QueueParams''"
          "fld (paramsEvent q) ''queue'' = Some q"
          "fld (queueMemberEvent q l) ''event'' = Some ''QueueMember''"
          "extension (memberOfQueueMember (queueMemberEvent q l)) = Some l" for q l
    by (simp_all add: paramsEvent_def queueMemberEvent_def fld_def memberOfQueueMember_def)
  have m: "members (queueOfParams ev) = []" for ev
    by (simp add: queueOfParams_def)
  have s: "send (connectedCache []) QueueStatus None (Reply 20 (Some duplicateResponse)) =
             Inr duplicateResponse"
    by (simp add: send_def onResponse_def timer_delay_def connectedCache_def newCache_def
                  duplicateResponse_def success_def)
  have "queues (updateQueues (Reply 20 (Some duplicateResponse)) (connectedCache [])) =
          buildQueues [paramsEvent ''A'', queueMemberEvent ''A'' ''SIP/100'',
                       queueMemberEvent ''A'' ''SIP/100''] [] None"
    by (simp add: updateQueues_resolved[OF s]) (simp add: duplicateResponse_def success_def)
  then show ?thesis
    by (simp add: e m pushMember_def)
qed

section \<open>Time\<close>

lemma tick_idle:
  assumes "\<forall>t \<in> set (timers s). Suc (clock s) < fst (snd t)"
  shows "tick s = s\<lparr>clock := Suc (clock s)\<rparr>"
proof -
  have "filter (\<lambda>t. fst (snd t) \<le> Suc (clock s)) (timers s) = []"
    using assms by (auto simp: filter_empty_conv)
  then show ?thesis by (simp add: tick_def dueTimers_def Let_def)
qed

lemma elapse_idle:
  "\<forall>t \<in> set (timers s). clock s + d < fst (snd t) \<Longrightarrow> elapse d s = s\<lparr>clock := clock s + d\<rparr>"
proof (induction d arbitrary: s)
  case 0
  then show ?case by simp
next
  case (Suc d)
  have t: "tick s = s\<lparr>clock := Suc (clock s)\<rparr>"
    using Suc.prems by (intro tick_idle) auto
  have "elapse d (s\<lparr>clock := Suc (clock s)\<rparr>) =
          (s\<lparr>clock := Suc (clock s)\<rparr>)\<lparr>clock := clock (s\<lparr>clock := Suc (clock s)\<rparr>) + d\<rparr>"
    using Suc.prems by (intro Suc.IH) auto
  then show ?case by (simp add: t)
qed

lemma elapse_add: "elapse (a + b) s = elapse b (elapse a s)"
  by (induction a arbitrary: s) auto

lemma tick_single:
  assumes "timers s = [(h, Suc (clock s), cb)]"
  shows "tick s = fire cb (s\<lparr>clock := Suc (clock s), timers := []\<rparr>)"
  using assms by (simp add: tick_def dueTimers_def fireTimer_def clearTimeout_def Let_def)

section \<open>One pending extension\<close>

lemma timeoutKey_neq [simp]: "timeoutKey ext \<noteq> ext" "ext \<noteq> timeoutKey ext"
  by (cases ext; simp add: timeoutKey_def)+

lemma kindOf_coalesced:
  "isCoalesced ext e \<Longrightarrow> kindOf e = ''QueueMemberStatus'' \<or> kindOf e = ''QueueMemberPause''"
  by (auto simp: isCoalesced_def kindOf_def)

lemma handleEvent_coalesced:
  assumes "isCoalesced ext e"
  shows "handleEvent e oc s = scheduleEventProcessing ext (kindOf e) e s"
  using assms by (auto simp: handleEvent_def isCoalesced_def kindOf_def)

lemma schedule_first:
  assumes "pendingEvents s = []" "timers s = []"
  shows "scheduleEventProcessing ext (kindOf ev) ev s =
           pendingState s ext ev [fld ev ''queue''] (nextTimer s)
             (clock s + timer_delay (eventTimeout s)) (clock s)"
  using assms
  by (simp add: scheduleEventProcessing_def pendingState_def mergedQueues_def setTimeout_def Let_def)

lemma schedule_next:
  "scheduleEventProcessing ext (kindOf ev') ev' (pendingState s ext ev qn h dl c) =
     pendingState s ext ev' (addQueue qn (fld ev' ''queue'')) (Suc h)
       (c + timer_delay (eventTimeout s)) c"
  by (simp add: scheduleEventProcessing_def pendingState_def mergedQueues_def setTimeout_def
                addQueue_def clearTimeout_def Let_def)

lemma elapse_pending:
  assumes "c + g < dl"
  shows "elapse g (pendingState s ext ev qn h dl c) = pendingState s ext ev qn h dl (c + g)"
proof -
  have "elapse g (pendingState s ext ev qn h dl c) =
          (pendingState s ext ev qn h dl c)\<lparr>clock := clock (pendingState s ext ev qn h dl c) + g\<rparr>"
    using assms by (intro elapse_idle) (simp add: pendingState_def)
  then show ?thesis by (simp add: pendingState_def)
qed

lemma fire_pending:
  "fire (Debounce ext (kindOf ev)) ((pendingState s ext ev qn h dl c)\<lparr>clock := dl, timers := []\<rparr>) =
     firedState s ev qn h dl"
  by (simp add: fire_def processPendingEvent_def pendingState_def firedState_def eventOf_def Let_def)

lemma elapse_fires:
  assumes "c < dl"
  shows "elapse (dl - c) (pendingState s ext ev qn h dl c) = firedState s ev qn h dl"
proof -
  obtain k where k: "dl = Suc (c + k)"
    using assms less_iff_Suc_add by auto
  have "elapse (dl - c) (pendingState s ext ev qn h dl c) =
          elapse 1 (elapse k (pendingState s ext ev qn h dl c))"
    using elapse_add[of k 1] k by simp
  also have "\<dots> = tick (pendingState s ext ev qn h dl (c + k))"
    using k by (simp add: elapse_pending)
  also have "\<dots> = fire (Debounce ext (kindOf ev))
                    ((pendingState s ext ev qn h dl (c + k))\<lparr>clock := Suc (c + k), timers := []\<rparr>)"
    using k by (subst tick_single[of _ h "Debounce ext (kindOf ev)"]) (simp_all add: pendingState_def)
  also have "\<dots> = firedState s ev qn h dl"
    by (simp add: k fire_pending)
  finally show ?thesis .
qed

lemma pendingState_fields [simp]:
  "exited (pendingState s ext ev qn h dl c) = exited s"
  "namiListeners (pendingState s ext ev qn h dl c) = namiListeners s"
  "emitted (pendingState s ext ev qn h dl c) = emitted s"
  "queues (pendingState s ext ev qn h dl c) = queues s"
  "clock (pendingState s ext ev qn h dl c) = c"
  by (simp_all add: pendingState_def)

lemma step_event:
  assumes "\<not> exited s" "count_list (namiListeners s) ''namiEvent'' = 1"
  shows "step (NamiEvent e oc) s = handleEvent e oc s"
  using assms by (simp add: step_def dispatch_def)

lemma step_elapse: "\<not> exited s \<Longrightarrow> step (Elapse d) s = elapse d s"
  by (simp add: step_def)

section \<open>A burst of events for one extension\<close>

lemma run_append: "run (xs @ ys) s = run ys (run xs s)"
  by (simp add: run_def)

lemma run_Cons: "run (x # xs) s = run xs (step x s)"
  by (simp add: run_def)

lemma run_Nil: "run [] s = s"
  by (simp add: run_def)

lemma burst_rest:
  assumes "\<not> exited s" "count_list (namiListeners s) ''namiEvent'' = 1"
      and "\<forall>x \<in> set rest. fst x < timer_delay (eventTimeout s) \<and> isCoalesced ext (snd x)"
  shows "run (concat (map (\<lambda>(g, e). [Elapse g, NamiEvent e NoReply]) rest))
           (pendingState s ext ev qn h (c + timer_delay (eventTimeout s)) c) =
         pendingState s ext (last (ev # map snd rest))
           (foldl addQueue qn (map (\<lambda>x. fld (snd x) ''queue'') rest))
           (h + length rest)
           (c + sum_list (map fst rest) + timer_delay (eventTimeout s))
           (c + sum_list (map fst rest))"
  using assms(3)
proof (induction rest arbitrary: ev qn h c)
  case Nil
  then show ?case by (simp add: run_Nil)
next
  case (Cons x rest)
  obtain g e where x: "x = (g, e)" by (cases x)
  from Cons.prems x have g: "g < timer_delay (eventTimeout s)" and e: "isCoalesced ext e"
    by simp_all
  have 1: "step (Elapse g) (pendingState s ext ev qn h (c + timer_delay (eventTimeout s)) c) =
             pendingState s ext ev qn h (c + timer_delay (eventTimeout s)) (c + g)"
    using g assms(1) by (simp add: step_elapse elapse_pending)
  have 2: "step (NamiEvent e NoReply)
             (pendingState s ext ev qn h (c + timer_delay (eventTimeout s)) (c + g)) =
           pendingState s ext e (addQueue qn (fld e ''queue'')) (Suc h)
             (c + g + timer_delay (eventTimeout s)) (c + g)"
    using assms(1,2) by (simp add: step_event handleEvent_coalesced[OF e] schedule_next)
  have 3: "run (concat (map (\<lambda>(g, e). [Elapse g, NamiEvent e NoReply]) rest))
             (pendingState s ext e (addQueue qn (fld e ''queue'')) (Suc h)
                (c + g + timer_delay (eventTimeout s)) (c + g)) =
           pendingState s ext (last (e # map snd rest))
             (foldl addQueue (addQueue qn (fld e ''queue'')) (map (\<lambda>x. fld (snd x) ''queue'') rest))
             (Suc h + length rest)
             (c + g + sum_list (map fst rest) + timer_delay (eventTimeout s))
             (c + g + sum_list (map fst rest))"
    using Cons.prems by (intro Cons.IH) simp
  have l: "last (ev # e # map snd rest) = last (e # map snd rest)"
    by simp
  show ?case
    using 3 by (simp add: x run_Cons 1 2 l add.assoc del: last.simps)
qed

lemma foldl_addQueue: "foldl addQueue [] xs = firstSeen xs"
proof (induction xs rule: rev_induct)
  case Nil
  then show ?case by (simp add: firstSeen_def)
next
  case (snoc x xs)
  then show ?case by (simp add: firstSeen_def addQueue_def)
qed

lemma burst_pending:
  assumes "pendingEvents s = []" "timers s = []" "\<not> exited s"
      and "count_list (namiListeners s) ''namiEvent'' = 1"
      and "isCoalesced ext e1"
      and "\<forall>x \<in> set rest. fst x < timer_delay (eventTimeout s) \<and> isCoalesced ext (snd x)"
  shows "run (burst e1 rest) s =
         pendingState s ext (last (e1 # map snd rest))
           (firstSeen (map (\<lambda>e. fld e ''queue'') (e1 # map snd rest)))
           (nextTimer s + length rest)
           (clock s + sum_list (map fst rest) + timer_delay (eventTimeout s))
           (clock s + sum_list (map fst rest))"
proof -
  have 1: "step (NamiEvent e1 NoReply) s =
             pendingState s ext e1 [fld e1 ''queue''] (nextTimer s)
               (clock s + timer_delay (eventTimeout s)) (clock s)"
    using assms(1-5) by (simp add: step_event handleEvent_coalesced schedule_first)
  have 2: "foldl addQueue [fld e1 ''queue''] (map (\<lambda>x. fld (snd x) ''queue'') rest) =
             firstSeen (map (\<lambda>e. fld e ''queue'') (e1 # map snd rest))"
    using foldl_addQueue[of "map (\<lambda>e. fld e ''queue'') (e1 # map snd rest)"]
    by (simp add: addQueue_def o_def)
  show ?thesis
    using burst_rest[OF assms(3,4,6), of e1 "[fld e1 ''queue'']" "nextTimer s" "clock s"]
    by (simp add: burst_def run_Cons 1 2)
qed

lemma burst_fired:
  assumes "pendingEvents s = []" "timers s = []" "\<not> exited s"
      and "count_list (namiListeners s) ''namiEvent'' = 1"
      and "isCoalesced ext e1"
      and "\<forall>x \<in> set rest. fst x < timer_delay (eventTimeout s) \<and> isCoalesced ext (snd x)"
  shows "run (burst e1 rest @ [Elapse (timer_delay (eventTimeout s))]) s =
         firedState s (last (e1 # map snd rest))
           (firstSeen (map (\<lambda>e. fld e ''queue'') (e1 # map snd rest)))
           (nextTimer s + length rest)
           (clock s + sum_list (map fst rest) + timer_delay (eventTimeout s))"
proof -
  have pos: "0 < timer_delay (eventTimeout s)"
    by (simp add: timer_delay_def)
  show ?thesis
    using elapse_fires[of "clock s + sum_list (map fst rest)"
            "clock s + sum_list (map fst rest) + timer_delay (eventTimeout s)"
            s ext "last (e1 # map snd rest)"
            "firstSeen (map (\<lambda>e. fld e ''queue'') (e1 # map snd rest))"
            "nextTimer s + length rest"] pos assms(3)
    by (simp add: run_append burst_pending[OF assms] run_Cons run_Nil step_elapse)
qed

lemma burst_quiet:
  assumes "pendingEvents s = []" "timers s = []" "\<not> exited s"
      and "count_list (namiListeners s) ''namiEvent'' = 1"
      and "isCoalesced ext e1"
      and "\<forall>x \<in> set rest. fst x < timer_delay (eventTimeout s) \<and> isCoalesced ext (snd x)"
      and "g < timer_delay (eventTimeout s)"
  shows "emitted (run (burst e1 rest @ [Elapse g]) s) = emitted s"
        "queues (run (burst e1 rest @ [Elapse g]) s) = queues s"
  using assms(3,7)
  by (simp_all add: run_append burst_pending[OF assms(1-6)] run_Cons run_Nil step_elapse
                    elapse_pending)

lemma remdups_snoc: "remdups (ys @ [x]) = filter (\<lambda>y. y \<noteq> x) (remdups ys) @ [x]"
  by (induction ys) auto

lemma firstSeen_Cons: "firstSeen (x # xs) = x # firstSeen (filter (\<lambda>y. y \<noteq> x) xs)"
  by (simp add: firstSeen_def remdups_snoc remdups_filter rev_filter)

lemma firstOf_firstSeen: "firstOf (firstSeen (x # xs)) = x"
  by (simp add: firstSeen_Cons firstOf_def)

lemma first_in_firstSeen: "x \<in> set (firstSeen (x # xs))"
  by (simp add: firstSeen_Cons)

lemma mergedNotification_found:
  assumes "map_of qs (firstOf qn) = Some q"
      and "firstOf qn \<in> set qn"
      and "find (\<lambda>m. extension m = fld ev ''interface'') (members q) = Some m0"
  shows "mergedNotification ''QueueMemberStatus'' ev qn (applyToQueues ''QueueMemberStatus'' ev qn qs) =
           [MemberStatusChanged qn (memberOfEvent ev) (paused (memberOfEvent ev))]"
    and "mergedNotification ''QueueMemberPause'' ev qn (applyToQueues ''QueueMemberPause'' ev qn qs) =
           [MemberPauseChanged qn
              (m0\<lparr>paused := parseInt (fld ev ''paused''),
                  pausedReason := fld ev ''pausedreason'',
                  lastPause := parseInt (fld ev ''lastpause'')\<rparr>)
              (parseInt (fld ev ''paused''))]"
proof -
  from assms(3) obtain i where
    i: "findIndex (\<lambda>m. extension m = fld ev ''interface'') (members q) = Some i"
    by (cases "findIndex (\<lambda>m. extension m = fld ev ''interface'') (members q)")
       (auto simp: find_None_findIndex[symmetric])
  with assms(3) have m0: "members q ! i = m0"
    using find_findIndex[OF i] by simp
  have q': "map_of (applyToQueues ty ev qn qs) (firstOf qn) = Some (updatedQueue ty ev q)" for ty
    using assms(1,2) by (simp add: map_of_applyToQueues)
  have f: "find (\<lambda>m. extension m = fld ev ''interface'') (members (updatedQueue ty ev q)) =
             Some (case newMember ty ev m0 of None \<Rightarrow> m0 | Some m \<Rightarrow> m)" for ty
    using i by (auto simp: find_updatedQueue m0 split: option.splits)
  show "mergedNotification ''QueueMemberStatus'' ev qn (applyToQueues ''QueueMemberStatus'' ev qn qs) =
           [MemberStatusChanged qn (memberOfEvent ev) (paused (memberOfEvent ev))]"
    by (simp add: mergedNotification_def q' f newMember_def)
  show "mergedNotification ''QueueMemberPause'' ev qn (applyToQueues ''QueueMemberPause'' ev qn qs) =
           [MemberPauseChanged qn
              (m0\<lparr>paused := parseInt (fld ev ''paused''),
                  pausedReason := fld ev ''pausedreason'',
                  lastPause := parseInt (fld ev ''lastpause'')\<rparr>)
              (parseInt (fld ev ''paused''))]"
    by (simp add: mergedNotification_def q' f newMember_def)
qed

lemma firedState_fields [simp]:
  "emitted (firedState s ev qn h dl) =
     emitted s @ mergedNotification (kindOf ev) ev qn (applyToQueues (kindOf ev) ev qn (queues s))
       @ [QueuesUpdated (map snd (applyToQueues (kindOf ev) ev qn (queues s)))]"
  "queues (firedState s ev qn h dl) = applyToQueues (kindOf ev) ev qn (queues s)"
  "pendingEvents (firedState s ev qn h dl) = []"
  "timers (firedState s ev qn h dl) = []"
  by (simp_all add: firedState_def)

lemma last_coalesced:
  assumes "isCoalesced ext e1" "\<forall>x \<in> set rest. fst x < d \<and> isCoalesced ext (snd x)"
  shows "isCoalesced ext (last (e1 # map snd rest))"
proof -
  have "last (e1 # map snd rest) \<in> set (e1 # map snd rest)"
    by (rule last_in_set) simp
  with assms show ?thesis by auto
qed

lemma connectedCache_clean:
  "pendingEvents (connectedCache qs) = []" "timers (connectedCache qs) = []"
  "\<not> exited (connectedCache qs)" "count_list (namiListeners (connectedCache qs)) ''namiEvent'' = 1"
  "eventTimeout (connectedCache qs) = 500" "emitted (connectedCache qs) = []"
  "queues (connectedCache qs) = qs"
  by (simp_all add: connectedCache_def newCache_def lifecycleEvents_def)

lemma pauseEvent_fields:
  "fld (pauseEvent q e p r) ''event'' = Some ''QueueMemberPause''"
  "fld (pauseEvent q e p r) ''queue'' = Some q"
  "fld (pauseEvent q e p r) ''interface'' = Some e"
  "fld (pauseEvent q e p r) ''paused'' = Some p"
  "fld (pauseEvent q e p r) ''pausedreason'' = Some r"
  "fld (pauseEvent q e p r) ''lastpause'' = Some ''17''"
  "kindOf (pauseEvent q e p r) = ''QueueMemberPause''"
  "isCoalesced (Some e) (pauseEvent q e p r)"
  by (simp_all add: pauseEvent_def fld_def kindOf_def isCoalesced_def)

lemma timer_delay_500: "timer_delay 500 = 500"
  by (simp add: timer_delay_def)

lemma statusEvent_fields:
  "fld (statusEvent q e st) ''event'' = Some ''QueueMemberStatus''"
  "fld (statusEvent q e st) ''queue'' = Some q"
  "fld (statusEvent q e st) ''interface'' = Some e"
  "kindOf (statusEvent q e st) = ''QueueMemberStatus''"
  "isCoalesced (Some e) (statusEvent q e st)"
  by (simp_all add: statusEvent_def fld_def kindOf_def isCoalesced_def)

section \<open>Shutdown\<close>

lemma clearTimeout_subset: "set (clearTimeout h ts) \<subseteq> set ts"
  by (auto simp: clearTimeout_def)

lemma clearTimeout_gone: "h \<notin> fst ` set (clearTimeout h ts)"
  by (auto simp: clearTimeout_def)

lemma clearHandle_subset: "set (clearHandle h ts) \<subseteq> set ts"
  using clearTimeout_subset by (cases h) (auto simp: clearHandle_def)

lemma clearHandle_gone: "h \<notin> fst ` set (clearHandle (Some h) ts)"
  using clearTimeout_gone by (simp add: clearHandle_def)

lemma clearPendingTimers_subset: "set (snd (clearPendingTimers pe ts)) \<subseteq> set ts"
proof (induction pe arbitrary: ts)
  case Nil
  then show ?case by simp
next
  case (Cons x pe)
  obtain key v where x: "x = (key, v)" by (cases x)
  show ?case
  proof (cases key)
    case None
    then show ?thesis by (simp add: x)
  next
    case (Some k)
    show ?thesis
    proof (cases v)
      case (PEvent p)
      then show ?thesis using Cons.IH[of ts] by (simp add: x Some)
    next
      case (PTimer h)
      then show ?thesis
        using Cons.IH[of ts] Cons.IH[of "clearTimeout h ts"] clearTimeout_subset[of h ts]
        by (auto simp: x Some)
    qed
  qed
qed

lemma clearPendingTimers_completes:
  "None \<notin> fst ` set pe \<Longrightarrow> fst (clearPendingTimers pe ts)"
proof (induction pe arbitrary: ts)
  case Nil
  then show ?case by simp
next
  case (Cons x pe)
  obtain key v where x: "x = (key, v)" by (cases x)
  from Cons.prems x obtain k where k: "key = Some k" by (cases key) auto
  from Cons.prems have "None \<notin> fst ` set pe" by auto
  then show ?case
    using Cons.IH by (cases v) (simp_all add: x k)
qed

lemma clearPendingTimers_gone:
  assumes "None \<notin> fst ` set pe" "(Some k, PTimer h) \<in> set pe" "endsWith k ''_timeout''"
  shows "h \<notin> fst ` set (snd (clearPendingTimers pe ts))"
  using assms(1,2)
proof (induction pe arbitrary: ts)
  case Nil
  then show ?case by simp
next
  case (Cons x pe)
  obtain key v where x: "x = (key, v)" by (cases x)
  from Cons.prems(1) x obtain k' where key: "key = Some k'" by (cases key) auto
  from Cons.prems(1) have none: "None \<notin> fst ` set pe" by auto
  show ?case
  proof (cases "(Some k, PTimer h) = x")
    case True
    then have "snd (clearPendingTimers (x # pe) ts) = snd (clearPendingTimers pe (clearTimeout h ts))"
      using assms(3) by auto
    moreover have "h \<notin> fst ` set (clearTimeout h ts)"
      by (rule clearTimeout_gone)
    ultimately show ?thesis
      using clearPendingTimers_subset[of pe "clearTimeout h ts"] by auto
  next
    case False
    with Cons.prems(2) have "(Some k, PTimer h) \<in> set pe" by auto
    from Cons.IH[OF none this] show ?thesis
      by (cases v) (simp_all add: x key)
  qed
qed

lemma endsWith_timeoutKey: "timeoutKey ext = Some k \<Longrightarrow> endsWith k ''_timeout''"
  by (auto simp: timeoutKey_def endsWith_def)

lemma cleanup_completed:
  assumes "None \<notin> fst ` set (pendingEvents s)"
  shows "cleanup c s =
     (let ts = snd (clearPendingTimers (pendingEvents s)
                 (clearHandle (reconnectTimeout s) (clearHandle (connectionTimeout s) (timers s))))
      in s\<lparr>shouldReconnect := False,
           timers := ts,
           connectionTimeout := None,
           reconnectTimeout := None,
           pendingEvents := [],
           namiListeners := [],
           socketListeners := map_option (\<lambda>ls. []) (socketListeners s),
           closed := (if isConnected s then Suc (closed s) else closed s),
           emitted := emitted s
              @ (case c of
                   None \<Rightarrow> []
                 | Some msg \<Rightarrow> if isConnected s then [ConnectionError ''CLEANUP_ERROR'' msg] else [])
              @ [Disconnected],
           exited := True\<rparr>)"
proof -
  obtain ok ts where ct: "clearPendingTimers (pendingEvents s)
      (clearHandle (reconnectTimeout s) (clearHandle (connectionTimeout s) (timers s))) = (ok, ts)"
    by (cases "clearPendingTimers (pendingEvents s)
      (clearHandle (reconnectTimeout s) (clearHandle (connectionTimeout s) (timers s)))")
  with clearPendingTimers_completes[OF assms,
      of "clearHandle (reconnectTimeout s) (clearHandle (connectionTimeout s) (timers s))"]
  have ok by simp
  with ct show ?thesis
    by (cases c) (simp_all add: cleanup_def Let_def emit_def)
qed

section \<open>Nothing moves a cache that is shut down\<close>

lemma inert_connect: "inert qs n T s \<Longrightarrow> connect s = s"
  by (simp add: inert_def quiesced_def connect_def)

lemma inert_timers: "inert qs n T s \<Longrightarrow> set ts \<subseteq> set (timers s) \<Longrightarrow> inert qs n T (s\<lparr>timers := ts\<rparr>)"
  by (auto simp: inert_def quiesced_def)

lemma inert_handleDisconnection: "inert qs n T s \<Longrightarrow> inert qs n T (handleDisconnection s)"
proof -
  assume a: "inert qs n T s"
  have "set (clearHandle (reconnectTimeout s) (clearHandle (connectionTimeout s) (timers s)))
          \<subseteq> set (timers s)"
    using clearHandle_subset[of "reconnectTimeout s" "clearHandle (connectionTimeout s) (timers s)"]
          clearHandle_subset[of "connectionTimeout s" "timers s"]
    by blast
  with a show ?thesis
    by (auto simp: inert_def quiesced_def handleDisconnection_def emit_def Let_def)
qed

lemma inert_processPendingEvent: "inert qs n T s \<Longrightarrow> processPendingEvent ext ty s = s"
  by (simp add: inert_def quiesced_def processPendingEvent_def)

lemma inert_emit: "inert qs n T s \<Longrightarrow> inert qs n T (emit x s)"
  by (simp add: inert_def quiesced_def emit_def)

lemma inert_clock: "inert qs n T s \<Longrightarrow> inert qs n T (s\<lparr>clock := c\<rparr>)"
  by (simp add: inert_def quiesced_def)

lemma inert_fire: "inert qs n T s \<Longrightarrow> inert qs n T (fire cb s)"
  by (cases cb)
     (simp_all add: fire_def inert_processPendingEvent inert_connect inert_handleDisconnection
                    inert_emit)

lemma inert_fireTimer: "inert qs n T s \<Longrightarrow> inert qs n T (fireTimer h s)"
proof (cases "find (\<lambda>t. fst t = h) (timers s)")
  case None
  then show "inert qs n T s \<Longrightarrow> ?thesis" by (simp add: fireTimer_def)
next
  case (Some t)
  assume a: "inert qs n T s"
  obtain h' d cb where t: "t = (h', d, cb)" by (cases t)
  have "inert qs n T (s\<lparr>timers := clearTimeout h (timers s)\<rparr>)"
    using a clearTimeout_subset by (rule inert_timers)
  then show ?thesis
    using Some t by (simp add: fireTimer_def inert_fire)
qed

lemma inert_fold_fireTimer: "inert qs n T s \<Longrightarrow> inert qs n T (fold fireTimer hs s)"
  by (induction hs arbitrary: s) (simp_all add: inert_fireTimer)

lemma inert_tick: "inert qs n T s \<Longrightarrow> inert qs n T (tick s)"
  by (simp add: tick_def Let_def inert_fold_fireTimer inert_clock)

lemma inert_elapse: "inert qs n T s \<Longrightarrow> inert qs n T (elapse d s)"
  by (induction d arbitrary: s) (simp_all add: inert_tick)

lemma inert_cleanup: "inert qs n T s \<Longrightarrow> inert qs n T (cleanup c s)"
proof -
  assume a: "inert qs n T s"
  then have "None \<notin> fst ` set (pendingEvents s)"
    by (simp add: inert_def quiesced_def)
  note cc = cleanup_completed[OF this, of c]
  have "set (snd (clearPendingTimers (pendingEvents s)
               (clearHandle (reconnectTimeout s) (clearHandle (connectionTimeout s) (timers s)))))
          \<subseteq> set (timers s)"
    using clearPendingTimers_subset[of "pendingEvents s"
            "clearHandle (reconnectTimeout s) (clearHandle (connectionTimeout s) (timers s))"]
          clearHandle_subset[of "reconnectTimeout s" "clearHandle (connectionTimeout s) (timers s)"]
          clearHandle_subset[of "connectionTimeout s" "timers s"]
    by blast
  with a show ?thesis
    by (auto simp: cc inert_def quiesced_def Let_def)
qed

lemma inert_dispatch: "inert qs n T s \<Longrightarrow> dispatch e f s = s"
  by (simp add: inert_def quiesced_def dispatch_def)

lemma inert_dispatchSocket: "inert qs n T s \<Longrightarrow> dispatchSocket e f s = s"
  by (auto simp: inert_def quiesced_def dispatchSocket_def)

lemma inert_step: "inert qs n T s \<Longrightarrow> inert qs n T (step i s)"
  by (cases i)
     (simp_all add: step_def inert_elapse inert_dispatch inert_dispatchSocket
                    inert_handleDisconnection inert_cleanup inert_connect disconnect_def)

lemma inert_run: "inert qs n T s \<Longrightarrow> inert qs n T (run ins s)"
  unfolding run_def by (induction ins arbitrary: s) (simp_all add: inert_step)

lemma exited_step: "exited s \<Longrightarrow> step i s = s"
  by (simp add: step_def)

lemma exited_run: "exited s \<Longrightarrow> run ins s = s"
  unfolding run_def by (induction ins) (simp_all add: exited_step)

text \<open>
  When no pending entry is stored under the key \<open>undefined\<close>, \<open>cleanup\<close> runs to its
  end. Then reconnection is off; the connect-timeout timer, the reconnect timer and the
  timer stored for every extension in the pending table are cleared; the pending table is
  empty; no listener is left on the transport or on its socket; and the process has
  exited, so that no later input changes anything. Even for a process that would be kept
  alive, no later input (time passing with the timers that may be left, events and errors
  of the transport, exceptions, signals, calls of \<open>connect\<close> and \<open>disconnect\<close>) changes the
  queue map, opens the transport again, sets a timer, stores a pending event, attaches a
  listener or turns reconnection on. (The answer to a status query is part of the input
  that starts the query, so an answer that arrives after the shutdown is not among these
  inputs.)
\<close>

theorem cleanup_is_final:
  assumes "None \<notin> fst ` set (pendingEvents s)"
  shows "exited (cleanup c s) \<and>
         \<not> shouldReconnect (cleanup c s) \<and>
         connectionTimeout (cleanup c s) = None \<and>
         reconnectTimeout (cleanup c s) = None \<and>
         pendingEvents (cleanup c s) = [] \<and>
         namiListeners (cleanup c s) = [] \<and>
         socketListeners (cleanup c s) \<in> set [None, Some []] \<and>
         queues (cleanup c s) = queues s \<and>
         (\<forall>h. connectionTimeout s = Some h \<or> reconnectTimeout s = Some h \<or>
               (\<exists>ext. (timeoutKey ext, PTimer h) \<in> set (pendingEvents s)) \<longrightarrow>
               h \<notin> fst ` set (timers (cleanup c s))) \<and>
         (\<forall>ins. run ins (cleanup c s) = cleanup c s) \<and>
         (\<forall>ins. queues (run ins ((cleanup c s)\<lparr>exited := False\<rparr>)) = queues s \<and>
                opened (run ins ((cleanup c s)\<lparr>exited := False\<rparr>)) = opened s \<and>
                set (timers (run ins ((cleanup c s)\<lparr>exited := False\<rparr>)))
                  \<subseteq> set (timers (cleanup c s)) \<and>
                quiesced (run ins ((cleanup c s)\<lparr>exited := False\<rparr>)))"
proof -
  let ?base = "clearHandle (reconnectTimeout s) (clearHandle (connectionTimeout s) (timers s))"
  let ?ts = "snd (clearPendingTimers (pendingEvents s) ?base)"
  note cc = cleanup_completed[OF assms, of c]
  have fields: "exited (cleanup c s)" "\<not> shouldReconnect (cleanup c s)"
       "connectionTimeout (cleanup c s) = None" "reconnectTimeout (cleanup c s) = None"
       "pendingEvents (cleanup c s) = []" "namiListeners (cleanup c s) = []"
       "socketListeners (cleanup c s) \<in> set [None, Some []]"
       "queues (cleanup c s) = queues s" "opened (cleanup c s) = opened s"
       "timers (cleanup c s) = ?ts"
    by (auto simp: cc Let_def)
  have sub: "set ?ts \<subseteq> set ?base"
    by (rule clearPendingTimers_subset)
  have handles: "h \<notin> fst ` set ?ts"
    if "connectionTimeout s = Some h \<or> reconnectTimeout s = Some h \<or>
        (\<exists>ext. (timeoutKey ext, PTimer h) \<in> set (pendingEvents s))" for h
    using that
  proof (elim disjE exE)
    assume "connectionTimeout s = Some h"
    then have "h \<notin> fst ` set (clearHandle (connectionTimeout s) (timers s))"
      using clearHandle_gone by simp
    then show ?thesis
      using sub clearHandle_subset[of "reconnectTimeout s" "clearHandle (connectionTimeout s) (timers s)"]
      by auto
  next
    assume "reconnectTimeout s = Some h"
    then have "h \<notin> fst ` set ?base"
      using clearHandle_gone by simp
    then show ?thesis using sub by auto
  next
    fix ext
    assume m: "(timeoutKey ext, PTimer h) \<in> set (pendingEvents s)"
    obtain k where k: "timeoutKey ext = Some k" by (simp add: timeoutKey_def)
    show ?thesis
      using clearPendingTimers_gone[OF assms, of k h ?base] m k endsWith_timeoutKey[OF k]
      by simp
  qed
  have "inert (queues s) (opened s) (set (timers (cleanup c s))) ((cleanup c s)\<lparr>exited := False\<rparr>)"
    using fields(1-9) by (simp add: inert_def quiesced_def)
  then have later: "inert (queues s) (opened s) (set (timers (cleanup c s)))
                      (run ins ((cleanup c s)\<lparr>exited := False\<rparr>))" for ins
    by (rule inert_run)
  show ?thesis
    using fields handles later exited_run[OF fields(1)]
    by (simp add: inert_def)
qed

lemma shutdownExample_pending:
  "shutdownExample =
     pendingState (connectedCache [queueWith ''A'' [agent ''SIP/100'']]) (Some ''SIP/100'')
       (pauseEvent ''A'' ''SIP/100'' ''1'' ''Lunch'') [Some ''A''] 0 500 0"
  using schedule_first[OF connectedCache_clean(1,2)[of "[queueWith ''A'' [agent ''SIP/100'']]"],
          where ext="Some ''SIP/100''" and ev="pauseEvent ''A'' ''SIP/100'' ''1'' ''Lunch''"]
  by (simp add: shutdownExample_def pauseEvent_fields connectedCache_clean timer_delay_500)
     (simp add: connectedCache_def newCache_def)

theorem cleanup_is_final_witness:
  "exited (cleanup None shutdownExample) \<and>
   0 \<notin> fst ` set (timers (cleanup None shutdownExample)) \<and>
   queues (run [Elapse 500, NamiEvent (addedEvent ''A'' ''SIP/101'') NoReply, CallConnect]
             ((cleanup None shutdownExample)\<lparr>exited := False\<rparr>)) =
     [queueWith ''A'' [agent ''SIP/100'']] \<and>
   opened (run [Elapse 500, NamiEvent (addedEvent ''A'' ''SIP/101'') NoReply, CallConnect]
             ((cleanup None shutdownExample)\<lparr>exited := False\<rparr>)) = 0"
proof -
  have pe: "pendingEvents shutdownExample =
              [(Some ''SIP/100'', PEvent \<lparr>payload = pauseEvent ''A'' ''SIP/100'' ''1'' ''Lunch'',
                                          pqueues = [Some ''A'']\<rparr>),
               (timeoutKey (Some ''SIP/100''), PTimer 0)]"
    and q: "queues shutdownExample = [queueWith ''A'' [agent ''SIP/100'']]"
    and o: "opened shutdownExample = 0"
    by (simp_all add: shutdownExample_pending pendingState_def connectedCache_def newCache_def)
  have a: "None \<notin> fst ` set (pendingEvents shutdownExample)"
    by (simp add: pe timeoutKey_def)
  have m: "(timeoutKey (Some ''SIP/100''), PTimer 0) \<in> set (pendingEvents shutdownExample)"
    by (simp add: pe)
  from cleanup_is_final[OF a, of None] have
    1: "exited (cleanup None shutdownExample)" and
    2: "\<forall>h. connectionTimeout shutdownExample = Some h \<or> reconnectTimeout shutdownExample = Some h \<or>
             (\<exists>ext. (timeoutKey ext, PTimer h) \<in> set (pendingEvents shutdownExample)) \<longrightarrow>
             h \<notin> fst ` set (timers (cleanup None shutdownExample))" and
    3: "\<forall>ins. queues (run ins ((cleanup None shutdownExample)\<lparr>exited := False\<rparr>)) =
                 queues shutdownExample \<and>
               opened (run ins ((cleanup None shutdownExample)\<lparr>exited := False\<rparr>)) =
                 opened shutdownExample \<and>
               set (timers (run ins ((cleanup None shutdownExample)\<lparr>exited := False\<rparr>)))
                 \<subseteq> set (timers (cleanup None shutdownExample)) \<and>
               quiesced (run ins ((cleanup None shutdownExample)\<lparr>exited := False\<rparr>))"
    by blast+
  from 2 m have "0 \<notin> fst ` set (timers (cleanup None shutdownExample))"
    by blast
  with 1 3 show ?thesis
    by (simp add: q o)
qed

text \<open>
  When the first pending entry is stored under the key \<open>undefined\<close>, the loop of
  \<open>cleanup\<close> raises at once: reconnection is off and the two connection timers are
  cleared, and the pending table, its timers, the listeners and the process stay.
\<close>

lemma cleanup_raises_on_undefined_key:
  assumes "pendingEvents s = (None, v) # rest"
  shows "cleanup c s =
           s\<lparr>shouldReconnect := False,
             timers := clearHandle (reconnectTimeout s) (clearHandle (connectionTimeout s) (timers s)),
             connectionTimeout := None,
             reconnectTimeout := None\<rparr>"
  using assms by (simp add: cleanup_def Let_def)

section \<open>A shutdown that does not complete\<close>

lemma added_on_pendingState:
  "handleQueueMemberAdded e (pendingState b ext ev qn h dl c) =
     pendingState (handleQueueMemberAdded e b) ext ev qn h dl c"
  by (simp add: handleQueueMemberAdded_def pendingState_def emit_def Let_def
           split: option.splits prod.splits)

text \<open>
  C9 fails on the code. A pause event without \<open>interface\<close> is stored under the key
  \<open>undefined\<close>; the loop of \<open>cleanup\<close> over the pending table raises on that key, before
  it cleared the debounce timer, emptied the table, removed the listeners or reached
  \<open>process.exit\<close>. After the signal the process runs on: a member-added event changes
  the queue map, and the debounce timer fires and emits \<open>queuesUpdated\<close>; no
  \<open>disconnected\<close> is emitted.
\<close>

theorem cleanup_leaves_cache_running:
  "\<not> exited (run shutdownTrace (connectedCache [queueWith ''A'' [agent ''SIP/100'']])) \<and>
   namiListeners (run shutdownTrace (connectedCache [queueWith ''A'' [agent ''SIP/100'']])) =
     lifecycleEvents \<and>
   map (\<lambda>kq. (fst kq, map extension (members (snd kq))))
     (queues (run shutdownTrace (connectedCache [queueWith ''A'' [agent ''SIP/100'']]))) =
     [(Some ''A'', [Some ''SIP/100'', Some ''SIP/101''])] \<and>
   map (\<lambda>n. case n of QueuesUpdated qs \<Rightarrow> ''queuesUpdated'' | MemberAdded q m \<Rightarrow> ''memberAdded''
                     | Disconnected \<Rightarrow> ''disconnected'' | _ \<Rightarrow> ''other'')
     (emitted (run shutdownTrace (connectedCache [queueWith ''A'' [agent ''SIP/100'']]))) =
     [''memberAdded'', ''queuesUpdated'', ''queuesUpdated'']"
proof -
  let ?c = "connectedCache [queueWith ''A'' [agent ''SIP/100'']]"
  let ?ev = "pauseWithoutInterface"
  define b where
    "b = handleQueueMemberAdded (addedEvent ''A'' ''SIP/101'') (?c\<lparr>shouldReconnect := False\<rparr>)"
  have x: "extension (agent ''SIP/100'') = Some ''SIP/100''"
          "extension (memberOfEvent (addedEvent ''A'' ''SIP/101'')) = Some ''SIP/101''"
    by (simp_all add: agent_def memberOfEvent_def addedEvent_def fld_def)
  have co: "isCoalesced None ?ev" and k: "kindOf ?ev = ''QueueMemberPause''"
    and q: "fld ?ev ''queue'' = Some ''A''" and i: "fld ?ev ''interface'' = None"
    by (simp_all add: pauseWithoutInterface_def isCoalesced_def kindOf_def fld_def)
  have 1: "step (NamiEvent ?ev NoReply) ?c = pendingState ?c None ?ev [Some ''A''] 0 500 0"
    using schedule_first[OF connectedCache_clean(1,2)[of "[queueWith ''A'' [agent ''SIP/100'']]"],
            where ext=None and ev="?ev"]
    by (simp add: step_event connectedCache_clean handleEvent_coalesced[OF co] q timer_delay_500)
       (simp add: connectedCache_def newCache_def)
  have 2: "step (Signal None) (pendingState ?c None ?ev [Some ''A''] 0 500 0) =
             pendingState (?c\<lparr>shouldReconnect := False\<rparr>) None ?ev [Some ''A''] 0 500 0"
    by (simp add: step_def connectedCache_clean)
       (simp add: cleanup_def pendingState_def connectedCache_def newCache_def clearHandle_def Let_def)
  have 3: "step (NamiEvent (addedEvent ''A'' ''SIP/101'') NoReply)
             (pendingState (?c\<lparr>shouldReconnect := False\<rparr>) None ?ev [Some ''A''] 0 500 0) =
           pendingState b None ?ev [Some ''A''] 0 500 0"
    by (simp add: step_def dispatch_def connectedCache_clean handleEvent_def addedEvent_def fld_def
                  added_on_pendingState b_def)
  have ex: "\<not> exited b" and li: "namiListeners b = lifecycleEvents"
    and qs: "queues b =
               [(Some ''A'', (defaultQueue (Some ''A''))
                   \<lparr>members := [agent ''SIP/100'', memberOfEvent (addedEvent ''A'' ''SIP/101'')]\<rparr>)]"
    and em: "emitted b =
               [MemberAdded (Some ''A'') (memberOfEvent (addedEvent ''A'' ''SIP/101'')),
                QueuesUpdated (map snd (queues b))]"
    unfolding b_def
    by (simp_all add: handleQueueMemberAdded_def connectedCache_def newCache_def queueWith_def
                      addedEvent_def fld_def memberOfEvent_def agent_def emit_def Let_def)
  have 4: "step (Elapse 500) (pendingState b None ?ev [Some ''A''] 0 500 0) =
             firedState b ?ev [Some ''A''] 0 500"
    using elapse_fires[of 0 500 b None ?ev "[Some ''A'']" 0] ex
    by (simp add: step_elapse)
  have r: "run shutdownTrace ?c = firedState b ?ev [Some ''A''] 0 500"
    by (simp add: shutdownTrace_def run_Cons run_Nil 1 2 3 4)
  have ap: "applyToQueues ''QueueMemberPause'' ?ev [Some ''A''] (queues b) = queues b"
    by (simp add: qs applyToQueues_def applyToQueue_def i x)
  have mn: "mergedNotification ''QueueMemberPause'' ?ev [Some ''A''] (queues b) = []"
    by (simp add: qs mergedNotification_def firstOf_def i x)
  have "exited (firedState b ?ev [Some ''A''] 0 500) = exited b"
       "namiListeners (firedState b ?ev [Some ''A''] 0 500) = namiListeners b"
    by (simp_all add: firedState_def)
  then show ?thesis
    using ex li
    by (simp add: r k ap mn em) (simp add: qs x)
qed

section \<open>Timers of other extensions and of the connection\<close>

lemma in_clearTimeout [simp]: "t \<in> set (clearTimeout h ts) \<longleftrightarrow> t \<in> set ts \<and> fst t \<noteq> h"
  by (auto simp: clearTimeout_def)

lemma distinct_clearTimeout [simp]:
  "distinct (map fst ts) \<Longrightarrow> distinct (map fst (clearTimeout h ts))"
  by (simp add: clearTimeout_def distinct_map_filter)

lemma in_clearHandle [simp]: "t \<in> set (clearHandle x ts) \<longleftrightarrow> t \<in> set ts \<and> x \<noteq> Some (fst t)"
  by (cases x) (auto simp: clearHandle_def)

lemma distinct_clearHandle [simp]:
  "distinct (map fst ts) \<Longrightarrow> distinct (map fst (clearHandle x ts))"
  by (cases x) (simp_all add: clearHandle_def)

lemma handle_unique:
  "distinct (map fst ts) \<Longrightarrow> t \<in> set ts \<Longrightarrow> t' \<in> set ts \<Longrightarrow> fst t = fst t' \<Longrightarrow> t = t'"
  by (metis eq_key_imp_eq_value prod.collapse)

lemma foreignCb_delete: "foreignCb ext pe cb \<Longrightarrow> foreignCb ext (AList.delete k pe) cb"
  by (cases cb) (auto simp: foreignCb_def delete_conv' split: option.splits)

lemma foreignCb_update:
  "foreignCb ext pe cb \<Longrightarrow> k = ext \<or> k = timeoutKey ext \<Longrightarrow> foreignCb ext (AList.update k v pe) cb"
  by (cases cb) (auto simp: foreignCb_def update_conv' collides_def split: option.splits)

lemma find_list_update_other:
  "\<not> P (xs ! i) \<Longrightarrow> \<not> P y \<Longrightarrow> i < length xs \<Longrightarrow> find P (xs[i := y]) = find P xs"
proof (induction xs arbitrary: i)
  case Nil
  then show ?case by simp
next
  case (Cons x xs)
  then show ?case by (cases i) auto
qed

lemma find_other_updatedQueue:
  assumes "fld ev ''interface'' \<noteq> ext"
  shows "find (\<lambda>m. extension m = ext) (members (updatedQueue ty ev q)) =
           find (\<lambda>m. extension m = ext) (members q)"
proof (cases "findIndex (\<lambda>m. extension m = fld ev ''interface'') (members q)")
  case None
  then show ?thesis by (simp add: updatedQueue_def)
next
  case fi: (Some i)
  then have i: "i < length (members q)" "extension (members q ! i) = fld ev ''interface''"
    by (simp_all add: findIndex_Some_iff)
  show ?thesis
  proof (cases "newMember ty ev (members q ! i)")
    case None
    with fi show ?thesis by (simp add: updatedQueue_def)
  next
    case (Some m)
    have "extension m = fld ev ''interface''"
      using newMember_extension[OF Some i(2)] .
    then have "find (\<lambda>m. extension m = ext) ((members q)[i := m]) =
                 find (\<lambda>m. extension m = ext) (members q)"
      using assms i by (intro find_list_update_other) simp_all
    with fi Some show ?thesis by (simp add: updatedQueue_def)
  qed
qed

lemma lookupMember_applyToQueues:
  assumes "fld ev ''interface'' \<noteq> ext"
  shows "lookupMember ext q1 (applyToQueues ty ev qn qs) = lookupMember ext q1 qs"
  by (cases "map_of qs q1")
     (simp_all add: lookupMember_def map_of_applyToQueues find_other_updatedQueue[OF assms])

lemma mergedNotification_other:
  assumes "fld ev ''interface'' \<noteq> ext"
  shows "filter (mergedFor ext) (mergedNotification ty ev qn qs) = []"
proof (cases "map_of qs (firstOf qn)")
  case None
  then show ?thesis by (simp add: mergedNotification_absent)
next
  case (Some q)
  show ?thesis
  proof (cases "find (\<lambda>m. extension m = fld ev ''interface'') (members q)")
    case None
    with Some show ?thesis by (simp add: mergedNotification_no_member)
  next
    case m: (Some m)
    then have ne: "extension m \<noteq> ext"
      using assms by (auto simp: find_Some_iff)
    have "mergedNotification ty ev qn qs = [] \<or>
          mergedNotification ty ev qn qs = [MemberStatusChanged qn m (paused m)] \<or>
          mergedNotification ty ev qn qs = [MemberPauseChanged qn m (paused m)]"
      using Some m by (simp add: mergedNotification_def)
    then show ?thesis
      using ne by (auto simp: mergedFor_def)
  qed
qed

lemma watch_frame [simp]:
  "watch ext mine (s\<lparr>emitted := e\<rparr>) = watch ext mine s"
  "watch ext mine (s\<lparr>queues := q\<rparr>) = watch ext mine s"
  "watch ext mine (s\<lparr>clock := c\<rparr>) = watch ext mine s"
  "watch ext mine (s\<lparr>isConnected := b\<rparr>) = watch ext mine s"
  "watch ext mine (s\<lparr>isReconnecting := b\<rparr>) = watch ext mine s"
  "watch ext mine (s\<lparr>opened := n\<rparr>) = watch ext mine s"
  "watch ext mine (s\<lparr>socketListeners := l\<rparr>) = watch ext mine s"
  by (simp_all add: watch_def)

lemma obs_frame [simp]:
  "obs ext (s\<lparr>timers := ts\<rparr>) = obs ext s"
  "obs ext (s\<lparr>clock := c\<rparr>) = obs ext s"
  "obs ext (s\<lparr>nextTimer := n\<rparr>) = obs ext s"
  "obs ext (s\<lparr>isConnected := b\<rparr>) = obs ext s"
  "obs ext (s\<lparr>isReconnecting := b\<rparr>) = obs ext s"
  "obs ext (s\<lparr>opened := n\<rparr>) = obs ext s"
  "obs ext (s\<lparr>connectionTimeout := x\<rparr>) = obs ext s"
  "obs ext (s\<lparr>reconnectTimeout := x\<rparr>) = obs ext s"
  "obs ext (s\<lparr>namiListeners := l\<rparr>) = obs ext s"
  "obs ext (s\<lparr>socketListeners := sl\<rparr>) = obs ext s"
  by (simp_all add: obs_def)

lemma obs_emit: "\<not> mergedFor ext n \<Longrightarrow> obs ext (emit n s) = obs ext s"
  by (simp add: obs_def emit_def)

lemma watch_emit [simp]: "watch ext mine (emit n s) = watch ext mine s"
  by (simp add: emit_def)

lemma watch_clearTimeout:
  assumes "watch ext mine s" "Some h \<noteq> map_option fst mine"
  shows "watch ext mine (s\<lparr>timers := clearTimeout h (timers s)\<rparr>)"
  using assms by (cases mine) (auto simp: watch_def)

lemma watch_handleDisconnection:
  assumes "watch ext mine s"
  shows "watch ext mine (handleDisconnection s)"
proof -
  let ?ts = "clearHandle (reconnectTimeout s) (clearHandle (connectionTimeout s) (timers s))"
  have ts: "distinct (map fst ?ts)" "\<forall>t \<in> set ?ts. t \<in> set (timers s)"
    using assms by (simp_all add: watch_def)
  have mine: "\<forall>t. mine = Some t \<longrightarrow> t \<in> set ?ts"
    using assms by (auto simp: watch_def)
  have lt: "\<forall>t. mine = Some t \<longrightarrow> fst t < nextTimer s"
  proof (intro allI impI)
    fix t assume "mine = Some t"
    then have "t \<in> set (timers s)" using assms by (simp add: watch_def)
    then show "fst t < nextTimer s" using assms by (simp add: watch_def)
  qed
  have fresh: "\<And>d cb. (nextTimer s, d, cb) \<notin> set (timers s)"
    using assms by (fastforce simp: watch_def)
  have lt': "Some (nextTimer s) \<noteq> map_option fst mine"
    using lt by (cases mine) auto
  show ?thesis
  proof (cases "shouldReconnect s")
    case False
    then show ?thesis
      using assms ts mine
      by (auto simp: handleDisconnection_def emit_def Let_def watch_def)
  next
    case True
    then show ?thesis
      using assms ts mine lt fresh lt'
      by (auto simp: handleDisconnection_def emit_def Let_def setTimeout_def watch_def foreignCb_def
               less_Suc_eq)
  qed
qed

lemma obs_handleDisconnection: "obs ext (handleDisconnection s) = obs ext s"
  by (simp add: handleDisconnection_def emit_def Let_def setTimeout_def obs_def mergedFor_def)

lemma clock_handleDisconnection: "clock (handleDisconnection s) = clock s"
  by (simp add: handleDisconnection_def emit_def Let_def setTimeout_def)

lemma watch_fresh:
  assumes "watch ext mine s"
  shows "\<And>d cb. (nextTimer s, d, cb) \<notin> set (timers s)"
    and "Some (nextTimer s) \<noteq> map_option fst mine"
    and "\<forall>t. mine = Some t \<longrightarrow> fst t < nextTimer s"
proof -
  show lt: "\<forall>t. mine = Some t \<longrightarrow> fst t < nextTimer s"
  proof (intro allI impI)
    fix t assume "mine = Some t"
    then have "t \<in> set (timers s)" using assms by (simp add: watch_def)
    then show "fst t < nextTimer s" using assms by (simp add: watch_def)
  qed
  show "\<And>d cb. (nextTimer s, d, cb) \<notin> set (timers s)"
    using assms by (fastforce simp: watch_def)
  show "Some (nextTimer s) \<noteq> map_option fst mine"
    using lt by (cases mine) auto
qed

lemma count_removeAllListeners:
  "count_list (removeAllListeners m ls) n = (if m = n then 0 else count_list ls n)"
  by (induction ls) (auto simp: removeAllListeners_def)

lemma count_namiEvent:
  "count_list (fold removeAllListeners lifecycleEvents ls) ''namiEvent'' = 0"
  "count_list lifecycleEvents ''namiEvent'' = 1"
  by (simp_all add: lifecycleEvents_def count_removeAllListeners)

lemma watch_connect:
  assumes "watch ext mine s"
  shows "watch ext mine (connect s)"
proof (cases "isReconnecting s \<or> \<not> shouldReconnect s")
  case True
  then show ?thesis using assms by (auto simp: connect_def)
next
  case False
  define s4 where
    "s4 = s\<lparr>isReconnecting := True,
            timers := timers s @ [(nextTimer s, clock s + timer_delay (connectTimeout s), ConnectTimeout)],
            nextTimer := Suc (nextTimer s),
            connectionTimeout := Some (nextTimer s),
            namiListeners := fold removeAllListeners lifecycleEvents (namiListeners s) @ lifecycleEvents,
            socketListeners :=
              map_option (\<lambda>ls. ls @ [''error''])
                (map_option (removeAllListeners ''error'') (socketListeners s)),
            opened := Suc (opened s)\<rparr>"
  have c: "connect s =
             (case openThrows s (opened s) of
                None \<Rightarrow> s4
              | Some msg \<Rightarrow> handleDisconnection (emit (ConnectionError ''CONNECTION_ERROR'' msg) s4))
             \<lparr>isReconnecting := False\<rparr>"
    using False by (simp add: connect_def s4_def Let_def setTimeout_def split: option.splits)
  have w4: "watch ext mine s4"
    using assms watch_fresh[OF assms]
    by (auto simp: watch_def s4_def foreignCb_def count_namiEvent less_Suc_eq)
  show ?thesis
    unfolding c
    by (cases "openThrows s (opened s)") (simp_all add: w4 watch_handleDisconnection)
qed

lemma obs_connect: "obs ext (connect s) = obs ext s"
  by (simp add: connect_def Let_def setTimeout_def obs_handleDisconnection obs_emit mergedFor_def
           split: option.splits)

lemma clock_connect: "clock (connect s) = clock s"
  by (simp add: connect_def Let_def setTimeout_def clock_handleDisconnection emit_def
           split: option.splits)

lemma fire_foreign:
  assumes w: "watch ext mine s" and f: "foreignCb ext (pendingEvents s) cb"
  shows "watch ext mine (fire cb s)"
    and "obs ext (fire cb s) = obs ext s"
    and "clock (fire cb s) = clock s"
proof -
  have "watch ext mine (fire cb s) \<and> obs ext (fire cb s) = obs ext s \<and>
        clock (fire cb s) = clock s"
  proof (cases cb)
    case ConnectTimeout
    then show ?thesis
      using w
      by (simp add: fire_def watch_handleDisconnection obs_handleDisconnection
                    clock_handleDisconnection obs_emit mergedFor_def)
         (simp add: emit_def)
  next
    case Reconnect
    then show ?thesis
      using w by (simp add: fire_def watch_connect obs_connect clock_connect)
  next
    case (Debounce E ty)
    have nc: "\<not> collides ext E"
      using f Debounce by (simp add: foreignCb_def)
    then have ne: "E \<noteq> ext" "E \<noteq> timeoutKey ext" "timeoutKey E \<noteq> ext"
      "timeoutKey E \<noteq> timeoutKey ext"
      by (simp_all add: collides_def)
    show ?thesis
    proof (cases "map_of (pendingEvents s) E")
      case None
      then show ?thesis
        using w Debounce by (simp add: fire_def processPendingEvent_def)
    next
      case (Some v)
      obtain ev qn where e: "eventOf v = (ev, qn)"
        by (cases "eventOf v") auto
      have i: "fld ev ''interface'' \<noteq> ext"
        using f Debounce Some e by (simp add: foreignCb_def)
      let ?pe = "AList.delete (timeoutKey E) (AList.delete E (pendingEvents s))"
      have u: "fire cb s =
                 s\<lparr>pendingEvents := ?pe,
                   queues := applyToQueues ty ev qn (queues s),
                   emitted := emitted s
                     @ mergedNotification ty ev qn (applyToQueues ty ev qn (queues s))
                     @ [QueuesUpdated (map snd (applyToQueues ty ev qn (queues s)))]\<rparr>"
        using processPendingEvent_unfold[OF Some e] Debounce by (simp add: fire_def)
      have fo: "foreignCb ext ?pe c" if "foreignCb ext (pendingEvents s) c" for c
        using that by (intro foreignCb_delete)
      have 1: "watch ext mine (fire cb s)"
        using w fo unfolding u by (auto simp: watch_def)
      have 2: "obs ext (fire cb s) = obs ext s"
        unfolding u
        using ne i
        by (simp add: obs_def delete_conv' mergedNotification_other lookupMember_applyToQueues
                      mergedFor_def)
      have 3: "clock (fire cb s) = clock s"
        unfolding u by simp
      from 1 2 3 show ?thesis by simp
    qed
  qed
  then show "watch ext mine (fire cb s)"
    and "obs ext (fire cb s) = obs ext s"
    and "clock (fire cb s) = clock s"
    by simp_all
qed

lemma fireTimer_foreign:
  assumes w: "watch ext mine s" and h: "Some h \<noteq> map_option fst mine"
  shows "watch ext mine (fireTimer h s) \<and> obs ext (fireTimer h s) = obs ext s \<and>
         clock (fireTimer h s) = clock s"
proof (cases "find (\<lambda>t. fst t = h) (timers s)")
  case None
  then show ?thesis using w by (simp add: fireTimer_def)
next
  case (Some t)
  obtain h' d cb where t: "t = (h', d, cb)" by (cases t) auto
  have tin: "t \<in> set (timers s)" and th: "fst t = h"
    using Some by (auto simp: find_Some_iff)
  have "Some t \<noteq> mine"
    using h th by auto
  let ?s = "s\<lparr>timers := clearTimeout h (timers s)\<rparr>"
  from \<open>Some t \<noteq> mine\<close> have f: "foreignCb ext (pendingEvents ?s) cb"
    using w tin t by (auto simp: watch_def)
  have w': "watch ext mine ?s"
    using watch_clearTimeout[OF w h] .
  have "fireTimer h s = fire cb ?s"
    using Some t by (simp add: fireTimer_def)
  then show ?thesis
    using fire_foreign[OF w' f] by simp
qed

lemma fold_foreign:
  assumes "watch ext mine s" "\<forall>h \<in> set hs. Some h \<noteq> map_option fst mine"
  shows "watch ext mine (fold fireTimer hs s) \<and> obs ext (fold fireTimer hs s) = obs ext s \<and>
         clock (fold fireTimer hs s) = clock s"
  using assms
proof (induction hs arbitrary: s)
  case Nil
  then show ?case by simp
next
  case (Cons h hs)
  have a: "watch ext mine (fireTimer h s) \<and> obs ext (fireTimer h s) = obs ext s \<and>
           clock (fireTimer h s) = clock s"
    using Cons.prems by (intro fireTimer_foreign) simp_all
  have b: "watch ext mine (fold fireTimer hs (fireTimer h s)) \<and>
           obs ext (fold fireTimer hs (fireTimer h s)) = obs ext (fireTimer h s) \<and>
           clock (fold fireTimer hs (fireTimer h s)) = clock (fireTimer h s)"
    using Cons.prems a by (intro Cons.IH) simp_all
  from a b show ?case by simp
qed

lemma set_dueTimers: "set (dueTimers s) = fst ` {t \<in> set (timers s). fst (snd t) \<le> clock s}"
  by (auto simp: dueTimers_def)

lemma tick_foreign:
  assumes w: "watch ext mine s" and d: "\<forall>t. mine = Some t \<longrightarrow> Suc (clock s) < fst (snd t)"
  shows "watch ext mine (tick s) \<and> obs ext (tick s) = obs ext s \<and>
         clock (tick s) = Suc (clock s)"
proof -
  let ?s = "s\<lparr>clock := Suc (clock s)\<rparr>"
  have w': "watch ext mine ?s" using w by simp
  have nd: "\<forall>h \<in> set (dueTimers ?s). Some h \<noteq> map_option fst mine"
  proof (cases mine)
    case None
    then show ?thesis by simp
  next
    case (Some m)
    have min: "m \<in> set (timers s)" and dis: "distinct (map fst (timers s))"
      using w Some by (simp_all add: watch_def)
    have "h \<noteq> fst m" if "h \<in> set (dueTimers ?s)" for h
    proof
      assume "h = fst m"
      with that obtain t where t: "t \<in> set (timers s)" "fst (snd t) \<le> Suc (clock s)" "fst t = fst m"
        by (auto simp: set_dueTimers)
      then have "t = m" using handle_unique[OF dis t(1) min] by simp
      with t(2) d Some show False by simp
    qed
    with Some show ?thesis by auto
  qed
  show ?thesis
    using fold_foreign[OF w' nd] by (simp add: tick_def Let_def)
qed

lemma elapse_foreign:
  assumes "watch ext mine s" "\<forall>t. mine = Some t \<longrightarrow> clock s + g < fst (snd t)"
  shows "watch ext mine (elapse g s) \<and> obs ext (elapse g s) = obs ext s \<and>
         clock (elapse g s) = clock s + g"
  using assms
proof (induction g arbitrary: s)
  case 0
  then show ?case by simp
next
  case (Suc g)
  have a: "watch ext mine (tick s) \<and> obs ext (tick s) = obs ext s \<and>
           clock (tick s) = Suc (clock s)"
    using Suc.prems by (intro tick_foreign) auto
  have b: "watch ext mine (elapse g (tick s)) \<and>
           obs ext (elapse g (tick s)) = obs ext (tick s) \<and>
           clock (elapse g (tick s)) = clock (tick s) + g"
    using Suc.prems a by (intro Suc.IH) auto
  from a b show ?case by simp
qed

section \<open>A burst of events for one extension, among other pending extensions\<close>

lemma mergedQueues_PEvent:
  "mergedQueues (Some (PEvent \<lparr>payload = ev, pqueues = qn\<rparr>)) q = addQueue qn q"
  by (simp add: mergedQueues_def addQueue_def)

lemma schedule_ours:
  assumes w: "watch ext mine s"
      and p: "map_of (pendingEvents s) (timeoutKey ext) = map_option (\<lambda>t. PTimer (fst t)) mine"
  shows "watch ext (Some (nextTimer s, clock s + timer_delay (eventTimeout s), Debounce ext ty))
           (scheduleEventProcessing ext ty ev s)"
    and "obs ext (scheduleEventProcessing ext ty ev s) =
           (filter (mergedFor ext) (emitted s), (\<lambda>q. lookupMember ext q (queues s)),
            Some (PEvent \<lparr>payload = ev,
                          pqueues = mergedQueues (map_of (pendingEvents s) ext) (fld ev ''queue'')\<rparr>),
            Some (PTimer (nextTimer s)), eventTimeout s)"
    and "clock (scheduleEventProcessing ext ty ev s) = clock s"
proof -
  define ts1 where
    "ts1 = (case mine of None \<Rightarrow> timers s | Some t \<Rightarrow> clearTimeout (fst t) (timers s))"
  define pe1 where
    "pe1 = AList.update ext
             (PEvent \<lparr>payload = ev,
                      pqueues = mergedQueues (map_of (pendingEvents s) ext) (fld ev ''queue'')\<rparr>)
             (pendingEvents s)"
  define new where
    "new = (nextTimer s, clock s + timer_delay (eventTimeout s), Debounce ext ty)"
  define r where "r = scheduleEventProcessing ext ty ev s"
  have f: "timers r = ts1 @ [new]" "nextTimer r = Suc (nextTimer s)"
    "pendingEvents r = AList.update (timeoutKey ext) (PTimer (nextTimer s)) pe1"
    "clock r = clock s" "emitted r = emitted s" "queues r = queues s"
    "eventTimeout r = eventTimeout s" "exited r = exited s" "namiListeners r = namiListeners s"
    "connectionTimeout r = connectionTimeout s" "reconnectTimeout r = reconnectTimeout s"
    using p
    by (cases mine;
        simp add: r_def scheduleEventProcessing_def Let_def setTimeout_def update_conv' ts1_def
                  pe1_def new_def)+
  have sub: "t \<in> set (timers s) \<and> Some t \<noteq> mine" if "t \<in> set ts1" for t
    using that by (cases mine) (auto simp: ts1_def w[unfolded watch_def])
  have dis: "distinct (map fst ts1)"
    using w by (cases mine) (simp_all add: ts1_def watch_def)
  have lt: "fst t < nextTimer s" if "t \<in> set ts1" for t
    using sub[OF that] w by (simp add: watch_def)
  have fresh: "nextTimer s \<notin> fst ` set ts1"
    using lt by fastforce
  have fo: "foreignCb ext (pendingEvents r) (snd (snd t))" if "t \<in> set ts1" for t
  proof -
    have "foreignCb ext (pendingEvents s) (snd (snd t))"
      using sub[OF that] w by (simp add: watch_def)
    then show ?thesis
      unfolding f pe1_def by (intro foreignCb_update) simp_all
  qed
  have cf: "h < Suc (nextTimer s) \<and> h \<noteq> nextTimer s"
    if "connectionTimeout s = Some h \<or> reconnectTimeout s = Some h" for h
  proof -
    have "h < nextTimer s"
      using that w by (auto simp: watch_def)
    then show ?thesis by simp
  qed
  have ex: "\<not> exited s" "count_list (namiListeners s) ''namiEvent'' = 1"
    using w by (simp_all add: watch_def)
  have 1: "distinct (map fst (timers r))"
    using dis fresh by (simp add: f new_def)
  have 2: "\<forall>t \<in> set (timers r). fst t < nextTimer r"
    using lt by (auto simp: f new_def less_Suc_eq)
  have 3: "\<forall>h. connectionTimeout r = Some h \<or> reconnectTimeout r = Some h \<longrightarrow>
               h < nextTimer r \<and> Some h \<noteq> map_option fst (Some new)"
    using cf by (simp add: f new_def)
  have 4: "\<not> exited r" and 5: "count_list (namiListeners r) ''namiEvent'' = 1"
    using ex by (simp_all add: f)
  have 6: "\<forall>t \<in> set (timers r). Some t \<noteq> Some new \<longrightarrow>
               foreignCb ext (pendingEvents r) (snd (snd t))"
    using fo by (auto simp: f(1))
  have 7: "\<forall>t. Some new = Some t \<longrightarrow> t \<in> set (timers r)"
    by (simp add: f(1))
  have "watch ext (Some new) r"
    unfolding watch_def by (intro conjI 1 2 3 4 5 6 7)
  then show "watch ext (Some (nextTimer s, clock s + timer_delay (eventTimeout s), Debounce ext ty))
               (scheduleEventProcessing ext ty ev s)"
    by (simp add: new_def r_def)
  have "obs ext r =
          (filter (mergedFor ext) (emitted s), (\<lambda>q. lookupMember ext q (queues s)),
           Some (PEvent \<lparr>payload = ev,
                         pqueues = mergedQueues (map_of (pendingEvents s) ext) (fld ev ''queue'')\<rparr>),
           Some (PTimer (nextTimer s)), eventTimeout s)"
    by (simp add: obs_def f pe1_def update_conv')
  then show "obs ext (scheduleEventProcessing ext ty ev s) =
           (filter (mergedFor ext) (emitted s), (\<lambda>q. lookupMember ext q (queues s)),
            Some (PEvent \<lparr>payload = ev,
                          pqueues = mergedQueues (map_of (pendingEvents s) ext) (fld ev ''queue'')\<rparr>),
            Some (PTimer (nextTimer s)), eventTimeout s)"
    by (simp add: r_def)
  show "clock (scheduleEventProcessing ext ty ev s) = clock s"
    using f(4) by (simp add: r_def)
qed

lemma stage_start:
  assumes u: "undisturbed ext s" and c: "isCoalesced ext e"
  shows "stage ext (filter (mergedFor ext) (emitted s)) (\<lambda>q. lookupMember ext q (queues s))
           (eventTimeout s) e [fld e ''queue''] (nextTimer s)
           (clock s + timer_delay (eventTimeout s)) (step (NamiEvent e oc) s) \<and>
         clock (step (NamiEvent e oc) s) = clock s"
proof -
  have w: "watch ext None s" and p: "map_of (pendingEvents s) ext = None"
    and t: "map_of (pendingEvents s) (timeoutKey ext) = map_option (\<lambda>t. PTimer (fst t)) None"
    using u by (simp_all add: undisturbed_def)
  have st: "step (NamiEvent e oc) s = scheduleEventProcessing ext (kindOf e) e s"
    using w by (simp add: step_event watch_def handleEvent_coalesced[OF c])
  show ?thesis
    unfolding st stage_def
    using schedule_ours[OF w t, of "kindOf e" e] p
    by (simp add: mergedQueues_def)
qed

lemma stage_event:
  assumes s: "stage ext F M T ev qn h dl s" and c: "isCoalesced ext e"
  shows "stage ext F M T e (addQueue qn (fld e ''queue'')) (nextTimer s)
           (clock s + timer_delay T) (step (NamiEvent e oc) s) \<and>
         clock (step (NamiEvent e oc) s) = clock s"
proof -
  have w: "watch ext (Some (h, dl, Debounce ext (kindOf ev))) s"
    and o: "obs ext s = (F, M, Some (PEvent \<lparr>payload = ev, pqueues = qn\<rparr>), Some (PTimer h), T)"
    using s by (simp_all add: stage_def)
  have t: "map_of (pendingEvents s) (timeoutKey ext) =
             map_option (\<lambda>t. PTimer (fst t)) (Some (h, dl, Debounce ext (kindOf ev)))"
    and p: "map_of (pendingEvents s) ext = Some (PEvent \<lparr>payload = ev, pqueues = qn\<rparr>)"
    and T: "eventTimeout s = T" and F: "filter (mergedFor ext) (emitted s) = F"
    and M: "(\<lambda>q. lookupMember ext q (queues s)) = M"
    using o by (simp_all add: obs_def)
  have st: "step (NamiEvent e oc) s = scheduleEventProcessing ext (kindOf e) e s"
    using w by (simp add: step_event watch_def handleEvent_coalesced[OF c])
  show ?thesis
    unfolding st stage_def
    using schedule_ours[OF w t, of "kindOf e" e]
    by (simp add: p T F M mergedQueues_PEvent)
qed

lemma stage_elapse:
  assumes s: "stage ext F M T ev qn h dl s" and g: "clock s + g < dl"
  shows "stage ext F M T ev qn h dl (step (Elapse g) s) \<and> clock (step (Elapse g) s) = clock s + g"
proof -
  have w: "watch ext (Some (h, dl, Debounce ext (kindOf ev))) s"
    and o: "obs ext s = (F, M, Some (PEvent \<lparr>payload = ev, pqueues = qn\<rparr>), Some (PTimer h), T)"
    using s by (simp_all add: stage_def)
  have st: "step (Elapse g) s = elapse g s"
    using w by (simp add: step_elapse watch_def)
  have "watch ext (Some (h, dl, Debounce ext (kindOf ev))) (elapse g s) \<and>
        obs ext (elapse g s) = obs ext s \<and> clock (elapse g s) = clock s + g"
    using w g by (intro elapse_foreign) simp_all
  then show ?thesis
    unfolding st stage_def using o by simp
qed

lemma burst_stage:
  assumes "stage ext F M T ev qn h (clock s + timer_delay T) s"
      and "\<forall>x \<in> set rest. fst x < timer_delay T \<and> isCoalesced ext (snd x)"
  shows "\<exists>h'. stage ext F M T (last (ev # map snd rest))
                 (foldl addQueue qn (map (\<lambda>x. fld (snd x) ''queue'') rest)) h'
                 (clock s + sum_list (map fst rest) + timer_delay T)
                 (run (concat (map (\<lambda>(g, e). [Elapse g, NamiEvent e NoReply]) rest)) s) \<and>
              clock (run (concat (map (\<lambda>(g, e). [Elapse g, NamiEvent e NoReply]) rest)) s) =
                clock s + sum_list (map fst rest)"
  using assms
proof (induction rest arbitrary: s ev qn h)
  case Nil
  then show ?case by (auto simp: run_Nil)
next
  case (Cons x rest)
  obtain g e where x: "x = (g, e)" by (cases x)
  have g: "g < timer_delay T" and c: "isCoalesced ext e"
    using Cons.prems(2) x by simp_all
  define a where "a = step (Elapse g) s"
  define b where "b = step (NamiEvent e NoReply) a"
  have a: "stage ext F M T ev qn h (clock s + timer_delay T) a \<and> clock a = clock s + g"
    unfolding a_def using Cons.prems(1) g by (intro stage_elapse) simp_all
  have b: "stage ext F M T e (addQueue qn (fld e ''queue'')) (nextTimer a)
             (clock a + timer_delay T) b \<and> clock b = clock a"
    using stage_event[OF conjunct1[OF a] c, of NoReply] by (simp add: b_def)
  then have b': "stage ext F M T e (addQueue qn (fld e ''queue'')) (nextTimer a)
                   (clock b + timer_delay T) b"
    by simp
  have r: "\<forall>x \<in> set rest. fst x < timer_delay T \<and> isCoalesced ext (snd x)"
    using Cons.prems(2) by simp
  have unf: "run (concat (map (\<lambda>(g, e). [Elapse g, NamiEvent e NoReply]) (x # rest))) s =
               run (concat (map (\<lambda>(g, e). [Elapse g, NamiEvent e NoReply]) rest)) b"
    by (simp add: x run_Cons a_def b_def)
  have l: "last (ev # map snd (x # rest)) = last (e # map snd rest)"
    by (simp add: x)
  have cl: "clock b = clock s + g"
    using a b by simp
  show ?case
    unfolding unf l
    using Cons.IH[OF b' r] by (simp add: x cl add.assoc)
qed

lemma dueTimers_split:
  assumes "distinct (map fst (timers s))" "t \<in> set (timers s)" "fst (snd t) \<le> clock s"
  shows "\<exists>pre post. dueTimers s = pre @ fst t # post \<and> fst t \<notin> set pre \<and> fst t \<notin> set post"
proof -
  let ?due = "filter (\<lambda>t. fst (snd t) \<le> clock s) (timers s)"
  have "distinct (timers s)" "inj_on fst (set (timers s))"
    using assms(1) by (simp_all add: distinct_map)
  then have "distinct (sort_key (\<lambda>t. fst (snd t)) ?due)"
    "inj_on fst (set (sort_key (\<lambda>t. fst (snd t)) ?due))"
    by (auto intro: inj_on_subset)
  then have d: "distinct (dueTimers s)"
    unfolding dueTimers_def by (simp add: distinct_map)
  have "fst t \<in> set (dueTimers s)"
    using assms(2,3) by (auto simp: set_dueTimers)
  then obtain pre post where sp: "dueTimers s = pre @ fst t # post"
    by (auto simp: in_set_conv_decomp)
  with d have "fst t \<notin> set pre \<and> fst t \<notin> set post"
    by auto
  with sp show ?thesis by blast
qed

lemma find_unique:
  "distinct (map fst ts) \<Longrightarrow> t \<in> set ts \<Longrightarrow> find (\<lambda>x. fst x = fst t) ts = Some t"
proof (induction ts)
  case Nil
  then show ?case by simp
next
  case (Cons a ts)
  show ?case
  proof (cases "a = t")
    case True
    then show ?thesis by simp
  next
    case False
    with Cons.prems have "t \<in> set ts" "fst a \<noteq> fst t"
      by (auto simp: image_iff)
    with Cons show ?thesis by simp
  qed
qed

lemma stage_fire:
  assumes st: "stage ext F M T ev qn h dl s" and lt: "clock s < dl"
  shows "\<exists>qs. (\<forall>q. lookupMember ext q qs = M q) \<and>
           obs ext (elapse (dl - clock s) s) =
             (F @ filter (mergedFor ext)
                    (mergedNotification (kindOf ev) ev qn (applyToQueues (kindOf ev) ev qn qs)),
              (\<lambda>q. lookupMember ext q (applyToQueues (kindOf ev) ev qn qs)), None, None, T) \<and>
           watch ext None (elapse (dl - clock s) s) \<and>
           clock (elapse (dl - clock s) s) = dl"
proof -
  define mine where "mine = (h, dl, Debounce ext (kindOf ev))"
  define g where "g = dl - clock s - 1"
  have g: "dl - clock s = g + 1" "clock s + g < dl" "Suc (clock s + g) = dl"
    using lt by (simp_all add: g_def)
  have w: "watch ext (Some mine) s"
    and o: "obs ext s = (F, M, Some (PEvent \<lparr>payload = ev, pqueues = qn\<rparr>), Some (PTimer h), T)"
    using st by (simp_all add: stage_def mine_def)
  define a where "a = elapse g s"
  have ea: "watch ext (Some mine) a \<and> obs ext a = obs ext s \<and> clock a = clock s + g"
    unfolding a_def using w g(2) by (intro elapse_foreign) (simp_all add: mine_def)
  have el: "elapse (dl - clock s) s = tick a"
    unfolding g(1) a_def elapse_add by simp
  define b where "b = a\<lparr>clock := dl\<rparr>"
  have wb: "watch ext (Some mine) b" and ob: "obs ext b = obs ext s" and cb: "clock b = dl"
    using ea by (simp_all add: b_def)
  have tk: "tick a = fold fireTimer (dueTimers b) b"
    using ea g(3) by (simp add: tick_def Let_def b_def)
  have min: "mine \<in> set (timers b)" and dis: "distinct (map fst (timers b))"
    using wb by (simp_all add: watch_def)
  have "fst (snd mine) \<le> clock b"
    by (simp add: mine_def cb)
  from dueTimers_split[OF dis min this]
  obtain pre post where sp: "dueTimers b = pre @ h # post" "h \<notin> set pre" "h \<notin> set post"
    by (auto simp: mine_def)
  define c where "c = fold fireTimer pre b"
  have wc: "watch ext (Some mine) c \<and> obs ext c = obs ext b \<and> clock c = clock b"
    unfolding c_def using wb sp(2) by (intro fold_foreign) (auto simp: mine_def)
  then have minc: "mine \<in> set (timers c)" and disc: "distinct (map fst (timers c))"
    by (simp_all add: watch_def)
  have fc: "find (\<lambda>t. fst t = h) (timers c) = Some mine"
    using find_unique[OF disc minc] by (simp add: mine_def)
  have oc: "obs ext c = (F, M, Some (PEvent \<lparr>payload = ev, pqueues = qn\<rparr>), Some (PTimer h), T)"
    using wc ob o by simp
  then have pc: "map_of (pendingEvents c) ext = Some (PEvent \<lparr>payload = ev, pqueues = qn\<rparr>)"
    and Fc: "filter (mergedFor ext) (emitted c) = F" and Tc: "eventTimeout c = T"
    and Mc: "\<forall>q. lookupMember ext q (queues c) = M q"
    by (auto simp: obs_def)
  define c' where "c' = c\<lparr>timers := clearTimeout h (timers c)\<rparr>"
  define d where "d = fireTimer h c"
  have "d = processPendingEvent ext (kindOf ev) c'"
    by (simp add: d_def fireTimer_def fc fire_def mine_def c'_def)
  moreover have "map_of (pendingEvents c') ext = Some (PEvent \<lparr>payload = ev, pqueues = qn\<rparr>)"
    using pc by (simp add: c'_def)
  moreover have "eventOf (PEvent \<lparr>payload = ev, pqueues = qn\<rparr>) = (ev, qn)"
    by (simp add: eventOf_def)
  ultimately have d: "d =
      c'\<lparr>pendingEvents := AList.delete (timeoutKey ext) (AList.delete ext (pendingEvents c')),
         queues := applyToQueues (kindOf ev) ev qn (queues c'),
         emitted := emitted c'
           @ mergedNotification (kindOf ev) ev qn (applyToQueues (kindOf ev) ev qn (queues c'))
           @ [QueuesUpdated (map snd (applyToQueues (kindOf ev) ev qn (queues c')))]\<rparr>"
    using processPendingEvent_unfold by simp
  have c'f: "pendingEvents c' = pendingEvents c" "queues c' = queues c" "emitted c' = emitted c"
    "timers c' = clearTimeout h (timers c)" "nextTimer c' = nextTimer c" "clock c' = clock c"
    "eventTimeout c' = eventTimeout c" "exited c' = exited c" "namiListeners c' = namiListeners c"
    "connectionTimeout c' = connectionTimeout c" "reconnectTimeout c' = reconnectTimeout c"
    by (simp_all add: c'_def)
  have wcu: "distinct (map fst (timers c))" "\<forall>t \<in> set (timers c). fst t < nextTimer c"
    "\<forall>h. connectionTimeout c = Some h \<or> reconnectTimeout c = Some h \<longrightarrow> h < nextTimer c"
    "\<not> exited c" "count_list (namiListeners c) ''namiEvent'' = 1"
    using wc by (simp_all add: watch_def)
  have fo: "foreignCb ext (AList.delete (timeoutKey ext) (AList.delete ext (pendingEvents c)))
              (snd (snd t))"
    if "t \<in> set (timers c)" "fst t \<noteq> h" for t
  proof -
    have "Some t \<noteq> Some mine" using that(2) by (auto simp: mine_def)
    then have "foreignCb ext (pendingEvents c) (snd (snd t))"
      using wc that(1) by (simp add: watch_def)
    then show ?thesis by (intro foreignCb_delete)
  qed
  have wd: "watch ext None d"
    unfolding d watch_def using wcu fo by (simp add: c'f)
  have od: "obs ext d =
              (F @ filter (mergedFor ext)
                     (mergedNotification (kindOf ev) ev qn (applyToQueues (kindOf ev) ev qn (queues c))),
               (\<lambda>q. lookupMember ext q (applyToQueues (kindOf ev) ev qn (queues c))), None, None, T)"
    unfolding d by (simp add: obs_def c'f delete_conv' Fc Tc mergedFor_def)
  have cd: "clock d = dl"
    unfolding d using wc cb by (simp add: c'f)
  have fin: "tick a = fold fireTimer post d"
    by (simp add: tk sp(1) c_def d_def)
  have wp: "watch ext None (fold fireTimer post d) \<and> obs ext (fold fireTimer post d) = obs ext d \<and>
            clock (fold fireTimer post d) = clock d"
    using wd by (intro fold_foreign) simp_all
  show ?thesis
    unfolding el fin
    using wp od cd Mc by (intro exI[of _ "queues c"]) simp
qed

lemma mergedNotification_own:
  assumes "fld ev ''interface'' = ext"
  shows "filter (mergedFor ext) (mergedNotification ty ev qn qs) = mergedNotification ty ev qn qs"
proof (cases "map_of qs (firstOf qn)")
  case None
  then show ?thesis by (simp add: mergedNotification_absent)
next
  case (Some q)
  show ?thesis
  proof (cases "find (\<lambda>m. extension m = fld ev ''interface'') (members q)")
    case None
    with Some show ?thesis by (simp add: mergedNotification_no_member)
  next
    case m: (Some m)
    then have e: "extension m = ext"
      using assms by (auto simp: find_Some_iff)
    have "mergedNotification ty ev qn qs = [] \<or>
          mergedNotification ty ev qn qs = [MemberStatusChanged qn m (paused m)] \<or>
          mergedNotification ty ev qn qs = [MemberPauseChanged qn m (paused m)]"
      using Some m by (simp add: mergedNotification_def)
    then show ?thesis
      using e by (auto simp: mergedFor_def)
  qed
qed

lemma lookupMember_Some:
  "lookupMember ext q qs = Some m \<longleftrightarrow>
     (\<exists>qu. map_of qs q = Some qu \<and> find (\<lambda>m. extension m = ext) (members qu) = Some m)"
  by (simp add: lookupMember_def split: option.splits)

lemma lookupMember_None:
  "lookupMember ext q qs = None \<longleftrightarrow>
     (case map_of qs q of None \<Rightarrow> True | Some qu \<Rightarrow> find (\<lambda>m. extension m = ext) (members qu) = None)"
  by (simp add: lookupMember_def split: option.splits)

lemma lookupMember_applied:
  assumes "fld ev ''interface'' = ext" "q \<in> set qn" "lookupMember ext q qs = Some m"
  shows "lookupMember ext q (applyToQueues ty ev qn qs) =
           Some (case newMember ty ev m of None \<Rightarrow> m | Some m' \<Rightarrow> m')"
proof -
  from assms(3) obtain qu where qu: "map_of qs q = Some qu"
    and f: "find (\<lambda>m. extension m = fld ev ''interface'') (members qu) = Some m"
    using assms(1) by (auto simp: lookupMember_Some)
  obtain i where i: "findIndex (\<lambda>m. extension m = fld ev ''interface'') (members qu) = Some i"
    using f
    by (cases "findIndex (\<lambda>m. extension m = fld ev ''interface'') (members qu)")
       (auto simp: find_None_findIndex[symmetric])
  have m: "members qu ! i = m"
    using find_findIndex[OF i] f by simp
  show ?thesis
    using assms(1,2) qu i m find_updatedQueue[of ev ty qu]
    by (auto simp: lookupMember_def map_of_applyToQueues split: option.splits)
qed

text \<open>
  The whole burst: the events of one extension, each less than the window after the one
  before, from a cache in which nothing of that extension is pending. Up to the end of
  the window after the last event no merged notification about the extension is added;
  at its end the entry is applied to the queues as they are then, in which the members of
  the extension are those of the start.
\<close>

lemma burst_general:
  assumes u: "undisturbed ext s" and c: "isCoalesced ext e1"
      and r: "\<forall>x \<in> set rest. fst x < timer_delay (eventTimeout s) \<and> isCoalesced ext (snd x)"
  shows "\<forall>g < timer_delay (eventTimeout s).
           filter (mergedFor ext) (emitted (run (burst e1 rest @ [Elapse g]) s)) =
             filter (mergedFor ext) (emitted s)"
    and "\<exists>qs. (\<forall>q. lookupMember ext q qs = lookupMember ext q (queues s)) \<and>
           obs ext (run (burst e1 rest @ [Elapse (timer_delay (eventTimeout s))]) s) =
             (filter (mergedFor ext) (emitted s) @
                mergedNotification (kindOf (last (e1 # map snd rest))) (last (e1 # map snd rest))
                  (firstSeen (map (\<lambda>e. fld e ''queue'') (e1 # map snd rest)))
                  (applyToQueues (kindOf (last (e1 # map snd rest))) (last (e1 # map snd rest))
                     (firstSeen (map (\<lambda>e. fld e ''queue'') (e1 # map snd rest))) qs),
              (\<lambda>q. lookupMember ext q
                     (applyToQueues (kindOf (last (e1 # map snd rest))) (last (e1 # map snd rest))
                        (firstSeen (map (\<lambda>e. fld e ''queue'') (e1 # map snd rest))) qs)),
              None, None, eventTimeout s) \<and>
           undisturbed ext (run (burst e1 rest @ [Elapse (timer_delay (eventTimeout s))]) s)"
proof -
  define T where "T = eventTimeout s"
  define F where "F = filter (mergedFor ext) (emitted s)"
  define M where "M = (\<lambda>q. lookupMember ext q (queues s))"
  define el where "el = last (e1 # map snd rest)"
  define qn where "qn = firstSeen (map (\<lambda>e. fld e ''queue'') (e1 # map snd rest))"
  define a where "a = step (NamiEvent e1 NoReply) s"
  define b where "b = run (concat (map (\<lambda>(g, e). [Elapse g, NamiEvent e NoReply]) rest)) a"
  have el: "isCoalesced ext el"
    unfolding el_def using last_coalesced[OF c r] .
  have a: "stage ext F M T e1 [fld e1 ''queue''] (nextTimer s) (clock a + timer_delay T) a"
    using stage_start[OF u c, of NoReply] by (simp add: a_def F_def M_def T_def)
  have r': "\<forall>x \<in> set rest. fst x < timer_delay T \<and> isCoalesced ext (snd x)"
    using r by (simp add: T_def)
  have q: "foldl addQueue [fld e1 ''queue''] (map (\<lambda>x. fld (snd x) ''queue'') rest) = qn"
    using foldl_addQueue[of "map (\<lambda>e. fld e ''queue'') (e1 # map snd rest)"]
    by (simp add: qn_def addQueue_def o_def)
  from burst_stage[OF a r']
  obtain h where b: "stage ext F M T el qn h (clock b + timer_delay T) b"
    by (auto simp: b_def el_def q)
  have run: "run (burst e1 rest @ xs) s = run xs b" for xs
    by (simp add: burst_def run_append run_Cons a_def b_def)
  have ne: "\<not> exited b"
    using b by (simp add: stage_def watch_def)
  show "\<forall>g < timer_delay (eventTimeout s).
           filter (mergedFor ext) (emitted (run (burst e1 rest @ [Elapse g]) s)) =
             filter (mergedFor ext) (emitted s)"
  proof (intro allI impI)
    fix g assume "g < timer_delay (eventTimeout s)"
    then have "clock b + g < clock b + timer_delay T"
      by (simp add: T_def)
    from stage_elapse[OF b this]
    have "obs ext (step (Elapse g) b) =
            (F, M, Some (PEvent \<lparr>payload = el, pqueues = qn\<rparr>), Some (PTimer h), T)"
      by (simp add: stage_def)
    then show "filter (mergedFor ext) (emitted (run (burst e1 rest @ [Elapse g]) s)) =
                 filter (mergedFor ext) (emitted s)"
      by (simp add: run run_Cons run_Nil obs_def F_def)
  qed
  have lt: "clock b < clock b + timer_delay T"
    by (simp add: timer_delay_def)
  from stage_fire[OF b lt]
  obtain qs where qs: "\<forall>q. lookupMember ext q qs = M q"
    and o: "obs ext (elapse (timer_delay T) b) =
              (F @ filter (mergedFor ext)
                     (mergedNotification (kindOf el) el qn (applyToQueues (kindOf el) el qn qs)),
               (\<lambda>q. lookupMember ext q (applyToQueues (kindOf el) el qn qs)), None, None, T)"
    and w: "watch ext None (elapse (timer_delay T) b)"
    by auto
  have i: "fld el ''interface'' = ext"
    using el by (simp add: isCoalesced_def)
  have fin: "run (burst e1 rest @ [Elapse (timer_delay (eventTimeout s))]) s = elapse (timer_delay T) b"
    using ne by (simp add: run run_Cons run_Nil step_elapse T_def)
  have o': "obs ext (elapse (timer_delay T) b) =
              (F @ mergedNotification (kindOf el) el qn (applyToQueues (kindOf el) el qn qs),
               (\<lambda>q. lookupMember ext q (applyToQueues (kindOf el) el qn qs)), None, None, T)"
    using o by (simp add: mergedNotification_own[OF i])
  have und: "undisturbed ext (elapse (timer_delay T) b)"
    using w o by (simp add: undisturbed_def obs_def)
  show "\<exists>qs. (\<forall>q. lookupMember ext q qs = lookupMember ext q (queues s)) \<and>
           obs ext (run (burst e1 rest @ [Elapse (timer_delay (eventTimeout s))]) s) =
             (filter (mergedFor ext) (emitted s) @
                mergedNotification (kindOf (last (e1 # map snd rest))) (last (e1 # map snd rest))
                  (firstSeen (map (\<lambda>e. fld e ''queue'') (e1 # map snd rest)))
                  (applyToQueues (kindOf (last (e1 # map snd rest))) (last (e1 # map snd rest))
                     (firstSeen (map (\<lambda>e. fld e ''queue'') (e1 # map snd rest))) qs),
              (\<lambda>q. lookupMember ext q
                     (applyToQueues (kindOf (last (e1 # map snd rest))) (last (e1 # map snd rest))
                        (firstSeen (map (\<lambda>e. fld e ''queue'') (e1 # map snd rest))) qs)),
              None, None, eventTimeout s) \<and>
           undisturbed ext (run (burst e1 rest @ [Elapse (timer_delay (eventTimeout s))]) s)"
    unfolding fin el_def[symmetric] qn_def[symmetric]
    using qs o' und
    by (intro exI[of _ qs]) (simp add: M_def F_def T_def)
qed

text \<open>A running cache with nothing pending and no timer is undisturbed for every extension.\<close>

lemma idle_undisturbed:
  assumes "pendingEvents s = []" "timers s = []" "\<not> exited s"
      and "count_list (namiListeners s) ''namiEvent'' = 1"
      and "connectionTimeout s = None" "reconnectTimeout s = None"
  shows "undisturbed ext s"
  using assms by (simp add: undisturbed_def watch_def)

text \<open>
  C1, as the code has it. The cache is running, with its one listener for the events of
  the transport; nothing of the extension is pending, and no entry or timer of another
  extension collides with it (other extensions may be pending, and the connection timers
  may be set). Events for the extension arrive, each a status or a pause event, each less
  than the debounce window after the one before. Then no merged notification about the
  extension is emitted until the window has passed after the last event. At that moment,
  when the queue of the first event is in the cache with a member of that extension,
  exactly one merged notification about the extension is emitted: it has the kind of the
  last event, the distinct queue names of the events in the order of their first
  occurrence, and the member of the first queue as updated from the last event. When that
  queue is not in the cache, or has no member of that extension, none is emitted.
\<close>

theorem burst_emits_one_merged_notification:
  assumes "undisturbed ext s"
      and "isCoalesced ext e1"
      and "\<forall>x \<in> set rest. fst x < timer_delay (eventTimeout s) \<and> isCoalesced ext (snd x)"
  shows "(let ins = burst e1 rest @ [Elapse (timer_delay (eventTimeout s))];
              el = last (e1 # map snd rest);
              qn = firstSeen (map (\<lambda>e. fld e ''queue'') (e1 # map snd rest))
          in (\<forall>q m0. map_of (queues s) (fld e1 ''queue'') = Some q \<and>
                      find (\<lambda>m. extension m = ext) (members q) = Some m0 \<longrightarrow>
                filter (mergedFor ext) (emitted (run ins s)) =
                  filter (mergedFor ext) (emitted s) @
                    [if kindOf el = ''QueueMemberStatus''
                     then MemberStatusChanged qn (memberOfEvent el) (parseInt (fld el ''paused''))
                     else MemberPauseChanged qn
                            (m0\<lparr>paused := parseInt (fld el ''paused''),
                                pausedReason := fld el ''pausedreason'',
                                lastPause := parseInt (fld el ''lastpause'')\<rparr>)
                            (parseInt (fld el ''paused''))]) \<and>
             ((case map_of (queues s) (fld e1 ''queue'') of
                 None \<Rightarrow> True
               | Some q \<Rightarrow> find (\<lambda>m. extension m = ext) (members q) = None) \<longrightarrow>
                filter (mergedFor ext) (emitted (run ins s)) = filter (mergedFor ext) (emitted s))) \<and>
         (\<forall>g < timer_delay (eventTimeout s).
            filter (mergedFor ext) (emitted (run (burst e1 rest @ [Elapse g]) s)) =
              filter (mergedFor ext) (emitted s))"
proof -
  define el where "el = last (e1 # map snd rest)"
  define qn where "qn = firstSeen (map (\<lambda>e. fld e ''queue'') (e1 # map snd rest))"
  define ins where "ins = burst e1 rest @ [Elapse (timer_delay (eventTimeout s))]"
  have el: "isCoalesced ext el"
    unfolding el_def using last_coalesced[OF assms(2,3)] .
  then have iface: "fld el ''interface'' = ext"
    by (simp add: isCoalesced_def)
  have first: "firstOf qn = fld e1 ''queue''" "firstOf qn \<in> set qn"
    unfolding qn_def
    using firstOf_firstSeen[of "fld e1 ''queue''"] first_in_firstSeen[of "fld e1 ''queue''"]
    by simp_all
  from burst_general(2)[OF assms]
  obtain qs where qs: "\<forall>q. lookupMember ext q qs = lookupMember ext q (queues s)"
    and o: "obs ext (run ins s) =
              (filter (mergedFor ext) (emitted s) @
                 mergedNotification (kindOf el) el qn (applyToQueues (kindOf el) el qn qs),
               (\<lambda>q. lookupMember ext q (applyToQueues (kindOf el) el qn qs)),
               None, None, eventTimeout s)"
    unfolding el_def qn_def ins_def by blast
  have fired: "filter (mergedFor ext) (emitted (run ins s)) =
                 filter (mergedFor ext) (emitted s) @
                   mergedNotification (kindOf el) el qn (applyToQueues (kindOf el) el qn qs)"
    using o by (simp add: obs_def)
  have quiet: "\<forall>g < timer_delay (eventTimeout s).
                 filter (mergedFor ext) (emitted (run (burst e1 rest @ [Elapse g]) s)) =
                   filter (mergedFor ext) (emitted s)"
    using burst_general(1)[OF assms] .
  have found: "filter (mergedFor ext) (emitted (run ins s)) = filter (mergedFor ext) (emitted s) @ [n]"
    if q: "map_of (queues s) (fld e1 ''queue'') = Some q"
      and f: "find (\<lambda>m. extension m = ext) (members q) = Some m0"
      and n: "n = (if kindOf el = ''QueueMemberStatus''
                   then MemberStatusChanged qn (memberOfEvent el) (parseInt (fld el ''paused''))
                   else MemberPauseChanged qn
                          (m0\<lparr>paused := parseInt (fld el ''paused''),
                              pausedReason := fld el ''pausedreason'',
                              lastPause := parseInt (fld el ''lastpause'')\<rparr>)
                          (parseInt (fld el ''paused'')))"
    for q m0 n
  proof -
    have "lookupMember ext (firstOf qn) (queues s) = Some m0"
      using q f first(1) by (simp add: lookupMember_Some)
    then have "lookupMember ext (firstOf qn) qs = Some m0"
      using qs by simp
    then obtain q' where q': "map_of qs (firstOf qn) = Some q'"
      and f': "find (\<lambda>m. extension m = fld el ''interface'') (members q') = Some m0"
      using iface by (auto simp: lookupMember_Some)
    note mn = mergedNotification_found[OF q' first(2) f']
    from kindOf_coalesced[OF el] show ?thesis
    proof
      assume k: "kindOf el = ''QueueMemberStatus''"
      then have "n = MemberStatusChanged qn (memberOfEvent el) (paused (memberOfEvent el))"
        by (simp add: n memberOfEvent_def)
      then show ?thesis
        by (simp add: fired k mn(1))
    next
      assume k: "kindOf el = ''QueueMemberPause''"
      then show ?thesis
        by (simp add: fired k mn(2) n)
    qed
  qed
  have missing: "filter (mergedFor ext) (emitted (run ins s)) = filter (mergedFor ext) (emitted s)"
    if "case map_of (queues s) (fld e1 ''queue'') of
          None \<Rightarrow> True
        | Some q \<Rightarrow> find (\<lambda>m. extension m = ext) (members q) = None"
  proof -
    from that have "lookupMember ext (firstOf qn) (queues s) = None"
      by (simp add: lookupMember_None first(1))
    then have "lookupMember ext (firstOf qn) qs = None"
      using qs by simp
    then have "case map_of qs (firstOf qn) of
          None \<Rightarrow> True
        | Some q \<Rightarrow> find (\<lambda>m. extension m = fld el ''interface'') (members q) = None"
      by (auto simp: lookupMember_None iface split: option.splits)
    then have "mergedNotification (kindOf el) el qn (applyToQueues (kindOf el) el qn qs) = []"
      by (rule mergedNotification_none)
    then show ?thesis by (simp add: fired)
  qed
  show ?thesis
    unfolding Let_def el_def[symmetric] qn_def[symmetric] ins_def[symmetric]
    using found missing quiet by blast
qed

lemma busyCache_pending:
  "busyCache =
     pendingState
       (connectedCache [queueWith ''A'' [agent ''SIP/100'', agent ''SIP/200''],
                        queueWith ''B'' [agent ''SIP/100'']])
       (Some ''SIP/200'') (pauseEvent ''A'' ''SIP/200'' ''1'' ''Break'') [Some ''A''] 0 500 0"
proof -
  let ?c = "connectedCache [queueWith ''A'' [agent ''SIP/100'', agent ''SIP/200''],
                            queueWith ''B'' [agent ''SIP/100'']]"
  let ?ev = "pauseEvent ''A'' ''SIP/200'' ''1'' ''Break''"
  have co: "isCoalesced (Some ''SIP/200'') ?ev"
    by (rule pauseEvent_fields(8))
  show ?thesis
    unfolding busyCache_def
    using schedule_first[OF connectedCache_clean(1,2), where ext="Some ''SIP/200''" and ev="?ev"]
    by (simp add: step_event connectedCache_clean handleEvent_coalesced[OF co] pauseEvent_fields
                  timer_delay_500)
       (simp add: connectedCache_def newCache_def)
qed

lemma busyCache_fields:
  "undisturbed (Some ''SIP/100'') busyCache"
  "eventTimeout busyCache = 500"
  "emitted busyCache = []"
  "map_of (queues busyCache) (Some ''A'') =
     Some (snd (queueWith ''A'' [agent ''SIP/100'', agent ''SIP/200'']))"
  "map_of (queues busyCache) (Some ''B'') = Some (snd (queueWith ''B'' [agent ''SIP/100'']))"
proof -
  show "undisturbed (Some ''SIP/100'') busyCache"
    unfolding busyCache_pending undisturbed_def watch_def
    by (simp add: connectedCache_clean)
       (simp add: pendingState_def connectedCache_def newCache_def foreignCb_def collides_def
                  timeoutKey_def eventOf_def pauseEvent_def fld_def)
  show "eventTimeout busyCache = 500" "emitted busyCache = []"
    unfolding busyCache_pending
    by (simp_all add: pendingState_def connectedCache_def newCache_def)
  show "map_of (queues busyCache) (Some ''A'') =
          Some (snd (queueWith ''A'' [agent ''SIP/100'', agent ''SIP/200'']))"
    "map_of (queues busyCache) (Some ''B'') = Some (snd (queueWith ''B'' [agent ''SIP/100'']))"
    unfolding busyCache_pending
    by (simp_all add: connectedCache_clean queueWith_def)
qed

lemma find_agent:
  "find (\<lambda>m. extension m = Some ''SIP/100'')
     (members (snd (queueWith n (agent ''SIP/100'' # ms)))) = Some (agent ''SIP/100'')"
  by (simp add: queueWith_def agent_def)

theorem burst_emits_one_merged_notification_witness:
  "filter (mergedFor (Some ''SIP/100''))
     (emitted (run (burst (pauseEvent ''A'' ''SIP/100'' ''0'' [])
                      [(100, pauseEvent ''B'' ''SIP/100'' ''1'' ''Lunch''),
                       (200, pauseEvent ''A'' ''SIP/100'' ''1'' ''Lunch'')] @ [Elapse 500])
                 busyCache)) =
     [MemberPauseChanged [Some ''A'', Some ''B''] (pausedAgent ''SIP/100'') (Num 1)]"
proof -
  let ?e1 = "pauseEvent ''A'' ''SIP/100'' ''0'' []"
  let ?rest = "[(100, pauseEvent ''B'' ''SIP/100'' ''1'' ''Lunch''),
                (200::nat, pauseEvent ''A'' ''SIP/100'' ''1'' ''Lunch'')]"
  have q: "map_of (queues busyCache) (fld ?e1 ''queue'') =
             Some (snd (queueWith ''A'' [agent ''SIP/100'', agent ''SIP/200'']))"
    by (simp add: busyCache_fields pauseEvent_fields)
  have r: "\<forall>x \<in> set ?rest.
             fst x < timer_delay (eventTimeout busyCache) \<and> isCoalesced (Some ''SIP/100'') (snd x)"
    by (simp add: busyCache_fields pauseEvent_fields timer_delay_500)
  have fs: "firstSeen [Some ''A'', Some ''B'', Some ''A''] = [Some ''A'', Some ''B'']"
    by (simp add: firstSeen_def)
  have "\<forall>q m0. map_of (queues busyCache) (fld ?e1 ''queue'') = Some q \<and>
                find (\<lambda>m. extension m = Some ''SIP/100'') (members q) = Some m0 \<longrightarrow>
          filter (mergedFor (Some ''SIP/100''))
            (emitted (run (burst ?e1 ?rest @ [Elapse 500]) busyCache)) =
            [MemberPauseChanged [Some ''A'', Some ''B'']
               (m0\<lparr>paused := Num 1, pausedReason := Some ''Lunch'', lastPause := Num 17\<rparr>) (Num 1)]"
    using burst_emits_one_merged_notification[OF busyCache_fields(1)
            pauseEvent_fields(8)[where q="''A''" and e="''SIP/100''" and p="''0''" and r="[]"] r]
    by (simp add: Let_def busyCache_fields pauseEvent_fields timer_delay_500 fs
                  parseInt_1 parseInt_17)
  with q find_agent show ?thesis
    by (simp add: pausedAgent_def)
qed

text \<open>
  The claim C1 as it is stated fails: with no queue in the cache, one status event and
  the debounce window give \<open>queuesUpdated\<close> and no merged notification.
\<close>

theorem burst_without_member_counterexample:
  "emitted (run [NamiEvent (statusEvent ''A'' ''SIP/100'' ''1'') NoReply, Elapse 500] (connectedCache [])) =
     [QueuesUpdated []] \<and>
   filter isMerged
     (emitted (run [NamiEvent (statusEvent ''A'' ''SIP/100'' ''1'') NoReply, Elapse 500]
                 (connectedCache []))) = []"
proof -
  have "run (burst (statusEvent ''A'' ''SIP/100'' ''1'') [] @ [Elapse (timer_delay (eventTimeout (connectedCache [])))])
          (connectedCache []) =
        firedState (connectedCache []) (statusEvent ''A'' ''SIP/100'' ''1'') [Some ''A'']
          (nextTimer (connectedCache [])) (clock (connectedCache []) + 500)"
    using burst_fired[OF connectedCache_clean(1-4)[of "[]"]
            statusEvent_fields(5)[where q="''A''" and e="''SIP/100''" and st="''1''"],
            where rest="[]"]
    by (simp add: connectedCache_clean statusEvent_fields timer_delay_500 firstSeen_def)
  then have "emitted (run [NamiEvent (statusEvent ''A'' ''SIP/100'' ''1'') NoReply, Elapse 500]
                        (connectedCache [])) = [QueuesUpdated []]"
    by (simp add: burst_def connectedCache_clean timer_delay_500 applyToQueues_def applyToQueue_def
                  mergedNotification_def firstOf_def)
  then show ?thesis by (simp add: isMerged_def)
qed

text \<open>
  C4. Queues \<open>A\<close> and \<open>B\<close> both have a member \<open>SIP/100\<close>; nothing of \<open>SIP/100\<close> is pending. A
  pause event for \<open>A\<close> arrives and, less than the debounce window later, a pause event
  for \<open>B\<close> with \<open>paused\<close> 1 and the reason \<open>Lunch\<close>. No merged notification about \<open>SIP/100\<close>
  is emitted before the window has passed after the second event; when it has, exactly
  one is emitted: a \<open>memberPauseChanged\<close> whose queues are \<open>A\<close>, \<open>B\<close> and whose member is
  the member of \<open>A\<close> with the values of the second event, \<open>paused\<close> 1 and \<open>pausedReason\<close>
  \<open>Lunch\<close>. The member of \<open>B\<close> has these values too.
\<close>

theorem pause_for_two_queues_scenario:
  assumes "undisturbed (Some ''SIP/100'') s"
      and "fld e1 ''event'' = Some ''QueueMemberPause''" and "fld e1 ''queue'' = Some ''A''"
      and "fld e1 ''interface'' = Some ''SIP/100''"
      and "fld e2 ''event'' = Some ''QueueMemberPause''" and "fld e2 ''queue'' = Some ''B''"
      and "fld e2 ''interface'' = Some ''SIP/100''"
      and "fld e2 ''paused'' = Some ''1''" and "fld e2 ''pausedreason'' = Some ''Lunch''"
      and "map_of (queues s) (Some ''A'') = Some qa"
      and "find (\<lambda>m. extension m = Some ''SIP/100'') (members qa) = Some ma"
      and "map_of (queues s) (Some ''B'') = Some qb"
      and "find (\<lambda>m. extension m = Some ''SIP/100'') (members qb) = Some mb"
      and "g < timer_delay (eventTimeout s)"
  shows "(let s' = run [NamiEvent e1 NoReply, Elapse g, NamiEvent e2 NoReply,
                        Elapse (timer_delay (eventTimeout s))] s;
              m = ma\<lparr>paused := Num 1, pausedReason := Some ''Lunch'',
                     lastPause := parseInt (fld e2 ''lastpause'')\<rparr>
          in filter (mergedFor (Some ''SIP/100'')) (emitted s') =
               filter (mergedFor (Some ''SIP/100'')) (emitted s) @
                 [MemberPauseChanged [Some ''A'', Some ''B''] m (Num 1)] \<and>
             paused m = Num 1 \<and> pausedReason m = Some ''Lunch'' \<and>
             (\<exists>qb'. map_of (queues s') (Some ''B'') = Some qb' \<and>
                find (\<lambda>m. extension m = Some ''SIP/100'') (members qb') =
                  Some (mb\<lparr>paused := Num 1, pausedReason := Some ''Lunch'',
                           lastPause := parseInt (fld e2 ''lastpause'')\<rparr>))) \<and>
         (\<forall>d < timer_delay (eventTimeout s).
            filter (mergedFor (Some ''SIP/100''))
              (emitted (run [NamiEvent e1 NoReply, Elapse g, NamiEvent e2 NoReply, Elapse d] s)) =
              filter (mergedFor (Some ''SIP/100'')) (emitted s))"
proof -
  let ?x = "Some ''SIP/100''"
  define s' where
    "s' = run [NamiEvent e1 NoReply, Elapse g, NamiEvent e2 NoReply,
               Elapse (timer_delay (eventTimeout s))] s"
  have c: "isCoalesced ?x e1" "isCoalesced ?x e2" "kindOf e2 = ''QueueMemberPause''"
    using assms(2,4,5,7) by (simp_all add: isCoalesced_def kindOf_def)
  have r: "\<forall>x \<in> set [(g, e2)]. fst x < timer_delay (eventTimeout s) \<and> isCoalesced ?x (snd x)"
    using c assms(14) by simp
  have b: "burst e1 [(g, e2)] = [NamiEvent e1 NoReply, Elapse g, NamiEvent e2 NoReply]"
    by (simp add: burst_def)
  have fs: "firstSeen [Some ''A'', Some ''B''] = [Some ''A'', Some ''B'']"
    by (simp add: firstSeen_def)
  from burst_general(2)[OF assms(1) c(1) r]
  obtain qs where qs: "\<forall>q. lookupMember ?x q qs = lookupMember ?x q (queues s)"
    and o: "obs ?x s' =
              (filter (mergedFor ?x) (emitted s) @
                 mergedNotification ''QueueMemberPause'' e2 [Some ''A'', Some ''B'']
                   (applyToQueues ''QueueMemberPause'' e2 [Some ''A'', Some ''B''] qs),
               (\<lambda>q. lookupMember ?x q
                      (applyToQueues ''QueueMemberPause'' e2 [Some ''A'', Some ''B''] qs)),
               None, None, eventTimeout s)"
    by (auto simp: b s'_def c(3) assms(3,6) fs)
  have quiet: "\<forall>d < timer_delay (eventTimeout s).
                 filter (mergedFor ?x)
                   (emitted (run [NamiEvent e1 NoReply, Elapse g, NamiEvent e2 NoReply, Elapse d] s)) =
                 filter (mergedFor ?x) (emitted s)"
    using burst_general(1)[OF assms(1) c(1) r] by (simp add: b)
  have la: "lookupMember ?x (Some ''A'') qs = Some ma"
    and lb: "lookupMember ?x (Some ''B'') qs = Some mb"
    using qs assms(10-13) by (simp_all add: lookupMember_Some)
  from la obtain qa' where qa': "map_of qs (firstOf [Some ''A'', Some ''B'']) = Some qa'"
    and fa: "find (\<lambda>m. extension m = fld e2 ''interface'') (members qa') = Some ma"
    using assms(7) by (auto simp: lookupMember_Some firstOf_def)
  have mn: "mergedNotification ''QueueMemberPause'' e2 [Some ''A'', Some ''B'']
              (applyToQueues ''QueueMemberPause'' e2 [Some ''A'', Some ''B''] qs) =
            [MemberPauseChanged [Some ''A'', Some ''B'']
               (ma\<lparr>paused := Num 1, pausedReason := Some ''Lunch'',
                   lastPause := parseInt (fld e2 ''lastpause'')\<rparr>) (Num 1)]"
    using mergedNotification_found(2)[OF qa' _ fa] assms(8,9)
    by (simp add: firstOf_def parseInt_1)
  have em: "filter (mergedFor ?x) (emitted s') =
              filter (mergedFor ?x) (emitted s) @
                [MemberPauseChanged [Some ''A'', Some ''B'']
                   (ma\<lparr>paused := Num 1, pausedReason := Some ''Lunch'',
                       lastPause := parseInt (fld e2 ''lastpause'')\<rparr>) (Num 1)]"
    using o mn by (simp add: obs_def)
  have "lookupMember ?x (Some ''B'') (queues s') =
          lookupMember ?x (Some ''B'')
            (applyToQueues ''QueueMemberPause'' e2 [Some ''A'', Some ''B''] qs)"
    using o by (auto simp: obs_def dest: fun_cong)
  also have "\<dots> = Some (mb\<lparr>paused := Num 1, pausedReason := Some ''Lunch'',
                             lastPause := parseInt (fld e2 ''lastpause'')\<rparr>)"
    using lookupMember_applied[OF assms(7) _ lb, of "[Some ''A'', Some ''B'']" "''QueueMemberPause''"]
      assms(8,9)
    by (simp add: newMember_def parseInt_1)
  finally have qb': "\<exists>qb'. map_of (queues s') (Some ''B'') = Some qb' \<and>
                find (\<lambda>m. extension m = Some ''SIP/100'') (members qb') =
                  Some (mb\<lparr>paused := Num 1, pausedReason := Some ''Lunch'',
                           lastPause := parseInt (fld e2 ''lastpause'')\<rparr>)"
    by (simp add: lookupMember_Some)
  show ?thesis
    unfolding Let_def s'_def[symmetric]
    using em qb' quiet by simp
qed

theorem pause_for_two_queues_scenario_witness:
  "filter (mergedFor (Some ''SIP/100''))
     (emitted (run [NamiEvent (pauseEvent ''A'' ''SIP/100'' ''1'' ''Lunch'') NoReply, Elapse 100,
                    NamiEvent (pauseEvent ''B'' ''SIP/100'' ''1'' ''Lunch'') NoReply, Elapse 500]
                 busyCache)) =
     [MemberPauseChanged [Some ''A'', Some ''B''] (pausedAgent ''SIP/100'') (Num 1)]"
proof -
  have g: "100 < timer_delay (eventTimeout busyCache)"
    by (simp add: busyCache_fields timer_delay_500)
  show ?thesis
    using pause_for_two_queues_scenario[OF busyCache_fields(1)
            pauseEvent_fields(1,2,3) pauseEvent_fields(1,2,3,4,5)
            busyCache_fields(4) find_agent busyCache_fields(5) find_agent g]
    by (simp add: Let_def busyCache_fields pauseEvent_fields pausedAgent_def parseInt_17
                  timer_delay_500)
qed

section \<open>The timer handles of a reachable cache\<close>

lemma handlesOk_frame [simp]:
  "handlesOk (s\<lparr>emitted := e\<rparr>) = handlesOk s"
  "handlesOk (s\<lparr>queues := q\<rparr>) = handlesOk s"
  "handlesOk (s\<lparr>clock := c\<rparr>) = handlesOk s"
  "handlesOk (s\<lparr>isConnected := b\<rparr>) = handlesOk s"
  "handlesOk (s\<lparr>isReconnecting := b\<rparr>) = handlesOk s"
  "handlesOk (s\<lparr>shouldReconnect := b\<rparr>) = handlesOk s"
  "handlesOk (s\<lparr>opened := n\<rparr>) = handlesOk s"
  "handlesOk (s\<lparr>closed := n\<rparr>) = handlesOk s"
  "handlesOk (s\<lparr>socketListeners := sl\<rparr>) = handlesOk s"
  "handlesOk (s\<lparr>namiListeners := l\<rparr>) = handlesOk s"
  "handlesOk (s\<lparr>pendingEvents := pe\<rparr>) = handlesOk s"
  "handlesOk (s\<lparr>exited := x\<rparr>) = handlesOk s"
  by (simp_all add: handlesOk_def)

lemma handlesOk_emit [simp]: "handlesOk (emit n s) = handlesOk s"
  by (simp add: emit_def)

lemma handlesOk_cleared:
  assumes "handlesOk s" "distinct (map fst ts)" "set ts \<subseteq> set (timers s)"
  shows "handlesOk (s\<lparr>timers := ts\<rparr>)"
    and "handlesOk (s\<lparr>timers := ts, connectionTimeout := None\<rparr>)"
    and "handlesOk (s\<lparr>timers := ts, connectionTimeout := None, reconnectTimeout := None\<rparr>)"
  using assms by (auto simp: handlesOk_def)

lemma handlesOk_setTimeout:
  assumes "handlesOk s"
  shows "handlesOk (snd (setTimeout cb d s))"
    and "handlesOk ((snd (setTimeout cb d s))\<lparr>connectionTimeout := Some (fst (setTimeout cb d s))\<rparr>)"
    and "handlesOk ((snd (setTimeout cb d s))\<lparr>reconnectTimeout := Some (fst (setTimeout cb d s))\<rparr>)"
  using assms by (fastforce simp: handlesOk_def setTimeout_def less_Suc_eq)+

lemma handlesOk_handleDisconnection:
  assumes "handlesOk s"
  shows "handlesOk (handleDisconnection s)"
proof -
  let ?ts = "clearHandle (reconnectTimeout s) (clearHandle (connectionTimeout s) (timers s))"
  define s2 where
    "s2 = s\<lparr>timers := ?ts, connectionTimeout := None, reconnectTimeout := None\<rparr>"
  have "distinct (map fst ?ts)" "set ?ts \<subseteq> set (timers s)"
    using assms by (auto simp: handlesOk_def)
  then have ok: "handlesOk s2"
    unfolding s2_def using assms by (intro handlesOk_cleared)
  have u: "handleDisconnection s =
             (if shouldReconnect s then
                (snd (setTimeout Reconnect (reconnectInterval s)
                        (emit (Reconnecting (reconnectInterval s))
                           (emit Disconnected (s2\<lparr>isConnected := False\<rparr>)))))
                \<lparr>reconnectTimeout :=
                   Some (fst (setTimeout Reconnect (reconnectInterval s)
                                (emit (Reconnecting (reconnectInterval s))
                                   (emit Disconnected (s2\<lparr>isConnected := False\<rparr>)))))\<rparr>
              else emit Disconnected (s2\<lparr>isConnected := False\<rparr>))"
    by (simp add: handleDisconnection_def Let_def s2_def emit_def split_beta)
  show ?thesis
    unfolding u using ok by (simp add: handlesOk_setTimeout)
qed

lemma handlesOk_connect:
  assumes "handlesOk s"
  shows "handlesOk (connect s)"
proof (cases "isReconnecting s \<or> \<not> shouldReconnect s")
  case True
  then show ?thesis using assms by (auto simp: connect_def)
next
  case False
  define s1 where
    "s1 = s\<lparr>isReconnecting := True,
            namiListeners := fold removeAllListeners lifecycleEvents (namiListeners s),
            socketListeners := map_option (removeAllListeners ''error'') (socketListeners s)\<rparr>"
  define s4 where
    "s4 = (snd (setTimeout ConnectTimeout (connectTimeout s1) s1))
            \<lparr>connectionTimeout := Some (fst (setTimeout ConnectTimeout (connectTimeout s1) s1)),
             namiListeners := namiListeners s1 @ lifecycleEvents,
             socketListeners := map_option (\<lambda>ls. ls @ [''error'']) (socketListeners s1),
             opened := Suc (opened s)\<rparr>"
  have ok1: "handlesOk s1"
    using assms by (simp add: s1_def)
  have ok4: "handlesOk s4"
    unfolding s4_def using handlesOk_setTimeout(2)[OF ok1] by simp
  have c: "connect s =
             (case openThrows s (opened s) of
                None \<Rightarrow> s4
              | Some msg \<Rightarrow> handleDisconnection (emit (ConnectionError ''CONNECTION_ERROR'' msg) s4))
             \<lparr>isReconnecting := False\<rparr>"
    using False
    by (simp add: connect_def s4_def s1_def Let_def setTimeout_def split: option.splits)
  show ?thesis
    unfolding c
    by (cases "openThrows s (opened s)") (simp_all add: ok4 handlesOk_handleDisconnection)
qed

lemma handlesOk_handleConnection:
  assumes "handlesOk s"
  shows "handlesOk (handleConnection s)"
proof -
  let ?ts = "clearHandle (connectionTimeout s) (timers s)"
  have "distinct (map fst ?ts)" "set ?ts \<subseteq> set (timers s)"
    using assms by (auto simp: handlesOk_def)
  then have "handlesOk (s\<lparr>timers := ?ts, connectionTimeout := None\<rparr>)"
    using assms by (intro handlesOk_cleared)
  then show ?thesis
    by (simp add: handleConnection_def Let_def)
qed

lemma handlesOk_schedule:
  assumes "handlesOk s"
  shows "handlesOk (scheduleEventProcessing ext ty ev s)"
proof -
  define pe1 where
    "pe1 = AList.update ext
             (PEvent \<lparr>payload = ev,
                      pqueues = mergedQueues (map_of (pendingEvents s) ext) (fld ev ''queue'')\<rparr>)
             (pendingEvents s)"
  define ts1 where
    "ts1 = (case map_of pe1 (timeoutKey ext) of
              Some (PTimer h) \<Rightarrow> clearTimeout h (timers s)
            | _ \<Rightarrow> timers s)"
  define r where "r = scheduleEventProcessing ext ty ev s"
  have f: "timers r = ts1 @ [(nextTimer s, clock s + timer_delay (eventTimeout s), Debounce ext ty)]"
    "nextTimer r = Suc (nextTimer s)" "connectionTimeout r = connectionTimeout s"
    "reconnectTimeout r = reconnectTimeout s"
    by (simp_all add: r_def scheduleEventProcessing_def Let_def setTimeout_def pe1_def ts1_def)
  have d: "distinct (map fst ts1)" and sub: "set ts1 \<subseteq> set (timers s)"
    using assms by (auto simp: ts1_def handlesOk_def split: option.splits pval.splits)
  have lt: "fst t < nextTimer s" if "t \<in> set ts1" for t
    using that sub assms by (auto simp: handlesOk_def)
  then have fresh: "nextTimer s \<notin> fst ` set ts1"
    by fastforce
  have "handlesOk r"
    unfolding handlesOk_def f
    using assms d fresh lt by (auto simp: handlesOk_def less_Suc_eq)
  then show ?thesis by (simp add: r_def)
qed

lemma handlesOk_processPendingEvent:
  "handlesOk s \<Longrightarrow> handlesOk (processPendingEvent ext ty s)"
  by (simp add: processPendingEvent_def Let_def split_beta split: option.splits)

lemma handlesOk_handleEvent:
  assumes "handlesOk s"
  shows "handlesOk (handleEvent e oc s)"
proof -
  have "handlesOk (updateQueues oc s)"
    using assms by (simp add: updateQueues_def Let_def split: sum.splits option.splits)
  moreover have "handlesOk (handleQueueMemberAdded e s)"
    using assms
    by (simp add: handleQueueMemberAdded_def Let_def split_beta split: option.splits)
  moreover have "handlesOk (handleQueueMemberRemoved e s)"
    using assms
    by (simp add: handleQueueMemberRemoved_def Let_def split: option.splits)
  ultimately show ?thesis
    using assms by (simp add: handleEvent_def handlesOk_schedule)
qed

lemma handlesOk_fire: "handlesOk s \<Longrightarrow> handlesOk (fire cb s)"
  by (cases cb)
     (simp_all add: fire_def handlesOk_processPendingEvent handlesOk_handleDisconnection
                    handlesOk_connect)

lemma handlesOk_fireTimer:
  assumes "handlesOk s"
  shows "handlesOk (fireTimer h s)"
proof (cases "find (\<lambda>t. fst t = h) (timers s)")
  case None
  then show ?thesis using assms by (simp add: fireTimer_def)
next
  case (Some t)
  have "distinct (map fst (clearTimeout h (timers s)))"
       "set (clearTimeout h (timers s)) \<subseteq> set (timers s)"
    using assms by (auto simp: handlesOk_def)
  then have "handlesOk (s\<lparr>timers := clearTimeout h (timers s)\<rparr>)"
    using assms by (intro handlesOk_cleared)
  then show ?thesis
    using Some by (simp add: fireTimer_def handlesOk_fire split: prod.splits)
qed

lemma handlesOk_fold: "handlesOk s \<Longrightarrow> handlesOk (fold fireTimer hs s)"
  by (induction hs arbitrary: s) (simp_all add: handlesOk_fireTimer)

lemma handlesOk_tick: "handlesOk s \<Longrightarrow> handlesOk (tick s)"
  by (simp add: tick_def Let_def handlesOk_fold)

lemma handlesOk_elapse: "handlesOk s \<Longrightarrow> handlesOk (elapse d s)"
  by (induction d arbitrary: s) (simp_all add: handlesOk_tick)

lemma distinct_clearPendingTimers:
  "distinct (map fst ts) \<Longrightarrow> distinct (map fst (snd (clearPendingTimers pe ts)))"
proof (induction pe arbitrary: ts)
  case Nil
  then show ?case by simp
next
  case (Cons x pe)
  obtain key v where x: "x = (key, v)" by (cases x)
  show ?case
    using Cons.prems Cons.IH[of ts] Cons.IH[of "clearTimeout h ts" for h]
    by (simp add: x split: option.splits pval.splits)
qed

lemma handlesOk_cleanup:
  assumes "handlesOk s"
  shows "handlesOk (cleanup c s)"
proof -
  let ?base = "clearHandle (reconnectTimeout s) (clearHandle (connectionTimeout s) (timers s))"
  let ?ts = "snd (clearPendingTimers (pendingEvents s) ?base)"
  have f: "timers (cleanup c s) = ?ts" "nextTimer (cleanup c s) = nextTimer s"
    "connectionTimeout (cleanup c s) = None" "reconnectTimeout (cleanup c s) = None"
    by (simp_all add: cleanup_def Let_def split_beta emit_def split: option.splits)
  have "distinct (map fst ?base)" "set ?base \<subseteq> set (timers s)"
    using assms by (auto simp: handlesOk_def)
  then have "distinct (map fst ?ts)" "set ?ts \<subseteq> set (timers s)"
    using clearPendingTimers_subset[of "pendingEvents s" ?base]
    by (auto intro: distinct_clearPendingTimers)
  then show ?thesis
    unfolding handlesOk_def f using assms by (auto simp: handlesOk_def)
qed

lemma handlesOk_funpow:
  assumes "\<And>s. handlesOk s \<Longrightarrow> handlesOk (f s)" "handlesOk s"
  shows "handlesOk ((f ^^ n) s)"
  using assms by (induction n) simp_all

lemma handlesOk_step:
  assumes "handlesOk s"
  shows "handlesOk (step i s)"
proof (cases "exited s")
  case True
  then show ?thesis using assms by (simp add: step_def)
next
  case False
  show ?thesis
  proof (cases i)
    case (Elapse d)
    then show ?thesis using assms False by (simp add: step_def handlesOk_elapse)
  next
    case NamiConnected
    then show ?thesis
      using assms False
      by (simp add: step_def dispatch_def handlesOk_funpow handlesOk_handleConnection)
  next
    case NamiConnectionClose
    then show ?thesis
      using assms False
      by (simp add: step_def dispatch_def handlesOk_funpow handlesOk_handleDisconnection)
  next
    case NamiInvalidPeer
    then show ?thesis
      using assms False
      by (simp add: step_def dispatch_def handlesOk_funpow handlesOk_handleDisconnection)
  next
    case (NamiEvent e oc)
    then show ?thesis
      using assms False
      by (simp add: step_def dispatch_def handlesOk_funpow handlesOk_handleEvent)
  next
    case (NamiConnectionError msg)
    then show ?thesis
      using assms False
      by (simp add: step_def dispatch_def handlesOk_funpow handlesOk_handleDisconnection)
  next
    case (SocketError msg)
    then show ?thesis
      using assms False
      by (simp add: step_def dispatchSocket_def socketErrorHandler_def handlesOk_funpow
                    handlesOk_handleDisconnection split: option.splits)
  next
    case (UncaughtException code)
    then show ?thesis
      using assms False by (simp add: step_def handlesOk_handleDisconnection)
  next
    case (Signal c)
    then show ?thesis using assms False by (simp add: step_def handlesOk_cleanup)
  next
    case CallConnect
    then show ?thesis using assms False by (simp add: step_def handlesOk_connect)
  next
    case (CallDisconnect c)
    then show ?thesis
      using assms False by (simp add: step_def disconnect_def handlesOk_cleanup)
  qed
qed

text \<open>
  Every cache that the inputs lead to from a new one, or from a connected one, has its
  timer handles in order.
\<close>

lemma handlesOk_run: "handlesOk s \<Longrightarrow> handlesOk (run ins s)"
  unfolding run_def by (induction ins arbitrary: s) (simp_all add: handlesOk_step)

lemma handlesOk_newCache: "handlesOk (run ins newCache)" "handlesOk (run ins (connectedCache qs))"
  by (rule handlesOk_run, simp add: handlesOk_def newCache_def connectedCache_def)+

text \<open>
  The undisturbed cache, spelled out: the handles are in order, the cache runs with its
  one listener, nothing is stored under the extension or its timer key, and every timer
  belongs to something else.
\<close>

lemma undisturbed_iff:
  "undisturbed ext s \<longleftrightarrow>
     handlesOk s \<and> \<not> exited s \<and> count_list (namiListeners s) ''namiEvent'' = 1 \<and>
     map_of (pendingEvents s) ext = None \<and> map_of (pendingEvents s) (timeoutKey ext) = None \<and>
     (\<forall>t \<in> set (timers s). foreignCb ext (pendingEvents s) (snd (snd t)))"
  by (auto simp: undisturbed_def watch_def handlesOk_def)

end
